theory Spec2Isabelle
  imports Main "HOL-Library.Word" "HOL-Library.AList"
begin

section \<open>JavaScript strings and character classes\<close>

text \<open>
  A JavaScript string is a sequence of 16-bit code units, and a regular expression
  without the \<open>u\<close> flag works on code units. ASCII literals of the source are written
  \<open>js ''...''\<close>.
\<close>

type_synonym jschar = "16 word"
type_synonym jsstring = "jschar list"

definition js :: "string \<Rightarrow> jsstring" where
  "js s = map of_char s"

text \<open>
  \<open>\s\<close> of a JavaScript regular expression: WhiteSpace and LineTerminator of
  ECMAScript (TAB, LF, VT, FF, CR, SP, NBSP, U+1680, U+2000..U+200A, LS, PS, U+202F,
  U+205F, U+3000, ZWNBSP). The dot matches every code unit but a LineTerminator.
\<close>

definition is_space :: "jschar \<Rightarrow> bool" where
  "is_space c \<longleftrightarrow>
     c = 0x09 \<or> c = 0x0A \<or> c = 0x0B \<or> c = 0x0C \<or> c = 0x0D \<or> c = 0x20 \<or> c = 0xA0 \<or>
     c = 0x1680 \<or> (0x2000 \<le> c \<and> c \<le> 0x200A) \<or> c = 0x2028 \<or> c = 0x2029 \<or>
     c = 0x202F \<or> c = 0x205F \<or> c = 0x3000 \<or> c = 0xFEFF"

definition is_line_terminator :: "jschar \<Rightarrow> bool" where
  "is_line_terminator c \<longleftrightarrow> c = 0x0A \<or> c = 0x0D \<or> c = 0x2028 \<or> c = 0x2029"

section \<open>The regular expressions of the parser\<close>

text \<open>
  The four patterns of \<open>configparser.js\<close> are sequences of single-character classes,
  each taken once or under \<open>*\<close>, \<open>+\<close> or the lazy \<open>*?\<close>, some inside a capture group.
  \<open>rmatch\<close> is the backtracking matcher of such a sequence at the start of a string: a
  greedy quantifier tries the longest run first and gives characters back one at a
  time, a lazy one tries the empty run first. The result lists the code units the
  match consumed, each with the number of the capture group it stands in (0: none).
\<close>

datatype cclass =
    Chr jschar
  | Space
  | AnyChar
  | OneOf "jschar list"
  | NoneOf "jschar list"

fun cmatch :: "cclass \<Rightarrow> jschar \<Rightarrow> bool" where
  "cmatch (Chr a) c \<longleftrightarrow> c = a"
| "cmatch Space c \<longleftrightarrow> is_space c"
| "cmatch AnyChar c \<longleftrightarrow> \<not> is_line_terminator c"
| "cmatch (OneOf cs) c \<longleftrightarrow> c \<in> set cs"
| "cmatch (NoneOf cs) c \<longleftrightarrow> c \<notin> set cs"

datatype quant = Once | Star | Plus | LazyStar

datatype atom = Atom cclass quant nat

type_synonym rmatch_result = "(nat \<times> jschar) list"

fun rmatch :: "atom list \<Rightarrow> jsstring \<Rightarrow> rmatch_result option" where
  "rmatch [] s = Some []"
| "rmatch (Atom c Once g # r) [] = None"
| "rmatch (Atom c Once g # r) (x # xs) =
     (if cmatch c x then map_option (Cons (g, x)) (rmatch r xs) else None)"
| "rmatch (Atom c Plus g # r) [] = None"
| "rmatch (Atom c Plus g # r) (x # xs) =
     (if cmatch c x then map_option (Cons (g, x)) (rmatch (Atom c Star g # r) xs) else None)"
| "rmatch (Atom c Star g # r) [] = rmatch r []"
| "rmatch (Atom c Star g # r) (x # xs) =
     (if cmatch c x
      then (case rmatch (Atom c Star g # r) xs of
              Some t \<Rightarrow> Some ((g, x) # t)
            | None \<Rightarrow> rmatch r (x # xs))
      else rmatch r (x # xs))"
| "rmatch (Atom c LazyStar g # r) [] = rmatch r []"
| "rmatch (Atom c LazyStar g # r) (x # xs) =
     (case rmatch r (x # xs) of
        Some t \<Rightarrow> Some t
      | None \<Rightarrow>
          if cmatch c x then map_option (Cons (g, x)) (rmatch (Atom c LazyStar g # r) xs)
          else None)"

text \<open>
  \<open>RegExp.prototype.exec\<close> of a pattern without flags: the leftmost start position
  at which the pattern matches. A pattern that begins with \<open>^\<close> only matches at
  position 0.
\<close>

fun search :: "atom list \<Rightarrow> jsstring \<Rightarrow> rmatch_result option" where
  "search r [] = rmatch r []"
| "search r (x # xs) =
     (case rmatch r (x # xs) of Some t \<Rightarrow> Some t | None \<Rightarrow> search r xs)"

datatype regexp = RegExp bool "atom list"

fun exec :: "regexp \<Rightarrow> jsstring \<Rightarrow> rmatch_result option" where
  "exec (RegExp anchored r) s = (if anchored then rmatch r s else search r s)"

definition matched :: "rmatch_result \<Rightarrow> jsstring" where
  "matched t = map snd t"

definition group :: "nat \<Rightarrow> rmatch_result \<Rightarrow> jsstring" where
  "group n t = map snd (filter (\<lambda>p. fst p = n) t)"

text \<open>\<open>SECTION = /\s*\[([^\]]+)]/\<close>\<close>

definition SECTION :: regexp where
  "SECTION = RegExp False
     [Atom Space Star 0, Atom (Chr 0x5B) Once 0, Atom (NoneOf [0x5D]) Plus 1,
      Atom (Chr 0x5D) Once 0]"

text \<open>\<open>KEY = /\s*(.*?)\s*[=:]\s*(.*)/\<close>\<close>

definition KEY :: regexp where
  "KEY = RegExp False
     [Atom Space Star 0, Atom AnyChar LazyStar 1, Atom Space Star 0,
      Atom (OneOf [0x3D, 0x3A]) Once 0, Atom Space Star 0, Atom AnyChar Star 2]"

text \<open>\<open>COMMENT = /^\s*[;#]/\<close>\<close>

definition COMMENT :: regexp where
  "COMMENT = RegExp True [Atom Space Star 0, Atom (OneOf [0x3B, 0x23]) Once 0]"

text \<open>The pattern \<open>/^\s+/\<close> of \<open>parseLines\<close>, and \<open>v.replace(/^\s+/, '')\<close>.\<close>

definition LEADING_SPACE :: regexp where
  "LEADING_SPACE = RegExp True [Atom Space Plus 0]"

definition strip_leading :: "jsstring \<Rightarrow> jsstring" where
  "strip_leading v =
     (case exec LEADING_SPACE v of None \<Rightarrow> v | Some t \<Rightarrow> drop (length (matched t)) v)"

text \<open>
  \<open>text.split(LINE_BOUNDARY)\<close> with
  \<open>LINE_BOUNDARY = /\r\n|[\n\r\u0085\u2028\u2029]/g\<close>: the pieces between the
  boundaries, CR LF counting as one boundary.
\<close>

definition is_line_boundary :: "jschar \<Rightarrow> bool" where
  "is_line_boundary c \<longleftrightarrow> c = 0x0A \<or> c = 0x0D \<or> c = 0x85 \<or> c = 0x2028 \<or> c = 0x2029"

fun split_lines :: "jsstring \<Rightarrow> jsstring list" where
  "split_lines [] = [[]]"
| "split_lines (c # cs) =
     (if c = 0x0D \<and> cs \<noteq> [] \<and> hd cs = 0x0A then [] # split_lines (tl cs)
      else if is_line_boundary c then [] # split_lines cs
      else (case split_lines cs of l # ls \<Rightarrow> (c # l) # ls | [] \<Rightarrow> [[c]]))"

section \<open>Objects, errors and the parser's state\<close>

text \<open>
  \<open>this._sections\<close> and every section are plain objects used as dictionaries. An
  object is modelled by its own properties, in the order of their creation; assigning
  to an existing property keeps its place (\<open>AList.update\<close>). Values of keys are
  strings, as the parser stores them.

  Two names of \<open>Object.prototype\<close> matter to the code. Assigning to \<open>__proto__\<close>
  creates no own property: it calls the inherited setter, which replaces the object's
  prototype when the value is an object and does nothing when it is a string. And the
  method \<open>hasOwnProperty\<close> is looked up on the object itself first, so an own property
  of that name hides it.
\<close>

type_synonym 'v js_object = "(jsstring \<times> 'v) list"
type_synonym ini_section = "jsstring js_object"

definition proto_name :: jsstring where
  "proto_name = js ''__proto__''"

definition hasOwnProperty_name :: jsstring where
  "hasOwnProperty_name = js ''hasOwnProperty''"

definition own :: "'v js_object \<Rightarrow> jsstring \<Rightarrow> bool" where
  "own obj name \<longleftrightarrow> name \<in> fst ` set obj"

text \<open>The file argument of \<open>read\<close>: a file name (string or Buffer) or a descriptor.\<close>

datatype file_id = FileName jsstring | FileDescriptor nat

text \<open>\<open>file || ''\<close>: \<open>null\<close>, the empty string and the number 0 are falsy.\<close>

fun file_or_empty :: "file_id option \<Rightarrow> file_id" where
  "file_or_empty None = FileName []"
| "file_or_empty (Some (FileName n)) = FileName n"
| "file_or_empty (Some (FileDescriptor d)) = (if d = 0 then FileName [] else FileDescriptor d)"

text \<open>
  Modelled from the spec: \<open>errors.js\<close> is not among the sources. Each error is named as
  \<open>configparser.js\<close> constructs it and carries the arguments passed there;
  \<open>TypeError\<close> is the runtime's, raised by calling a value that is no function.
\<close>

datatype error =
    DuplicateSectionError jsstring
  | NoSectionError jsstring
  | MissingSectionHeaderError "file_id option" nat jsstring
  | ParseError file_id nat jsstring
  | InterpolationError
  | TypeError

text \<open>What \<open>options.onInvalidLine\<close> holds when it is given.\<close>

datatype handler = Function | NotAFunction

text \<open>The argument \<open>{file, lineNumber, line}\<close> of the \<open>onInvalidLine\<close> callback.\<close>

record invalid_line =
  il_file :: "file_id option"
  il_lineNumber :: nat
  il_line :: jsstring

text \<open>
  The fields of a \<open>ConfigParser\<close>. \<open>sections_proto\<close> is the prototype of
  \<open>_sections\<close> when an assignment to \<open>_sections['__proto__']\<close> has replaced it
  (\<open>None\<close>: still \<open>Object.prototype\<close>).
\<close>

record config_parser =
  p_file :: "file_id option"
  p_transform :: jsstring
  p_onInvalidLine :: "handler option"
  p_sections :: "ini_section js_object"
  p_sections_proto :: "ini_section option"

record options =
  opt_transform :: "jsstring option"
  opt_onInvalidLine :: "handler option"

definition ConfigParser :: "options \<Rightarrow> config_parser" where
  "ConfigParser opts =
     \<lparr> p_file = None,
       p_transform = (case opt_transform opts of
                      None \<Rightarrow> js ''none''
                    | Some t \<Rightarrow> if t = [] then js ''none'' else t),
       p_onInvalidLine = opt_onInvalidLine opts,
       p_sections = [],
       p_sections_proto = None \<rparr>"

text \<open>
  \<open>String.prototype.toUpperCase\<close> and \<open>toLowerCase\<close> belong to the runtime, not to
  the repository: the model takes them as parameters.
\<close>

record js_runtime =
  toUpperCase :: "jsstring \<Rightarrow> jsstring"
  toLowerCase :: "jsstring \<Rightarrow> jsstring"

section \<open>parseLines\<close>

text \<open>
  \<open>transformKey\<close> of \<open>parseLines\<close>. Its first branch (an undefined key) cannot be
  taken: both capture groups it is applied to always take part in a match.
\<close>

definition transformKey :: "js_runtime \<Rightarrow> jsstring \<Rightarrow> jsstring \<Rightarrow> jsstring" where
  "transformKey rt tr key =
     (if tr = [] then key
      else if tr = js ''upper'' then toUpperCase rt key
      else if tr = js ''lower'' then toLowerCase rt key
      else key)"

text \<open>
  \<open>curSec\<close>: \<open>null\<close>, or the object made by the last header. That object is the own
  property of \<open>_sections\<close> named by the header, or, when the name was \<open>__proto__\<close>,
  the new prototype of \<open>_sections\<close>.
\<close>

datatype current_section = NoSection | Own jsstring | Proto

record loop_state =
  parser :: config_parser
  curSec :: current_section
  calls :: "invalid_line list"

text \<open>\<open>curSec = {}; this._sections[name] = curSec\<close>\<close>

definition new_section :: "loop_state \<Rightarrow> jsstring \<Rightarrow> loop_state" where
  "new_section st name =
     (if name = proto_name
      then st\<lparr>parser := (parser st)\<lparr>p_sections_proto := Some []\<rparr>, curSec := Proto\<rparr>
      else st\<lparr>parser := (parser st)\<lparr>p_sections := AList.update name [] (p_sections (parser st))\<rparr>,
              curSec := Own name\<rparr>)"

text \<open>\<open>obj[key] = value\<close> for a string \<open>value\<close>\<close>

definition put_key :: "ini_section \<Rightarrow> jsstring \<Rightarrow> jsstring \<Rightarrow> ini_section" where
  "put_key sec key v = (if key = proto_name then sec else AList.update key v sec)"

text \<open>\<open>curSec[key] = value\<close>\<close>

definition curSec_put :: "loop_state \<Rightarrow> jsstring \<Rightarrow> jsstring \<Rightarrow> loop_state" where
  "curSec_put st key v =
     (case curSec st of
        NoSection \<Rightarrow> st
      | Own name \<Rightarrow>
          st\<lparr>parser := (parser st)\<lparr>p_sections :=
            AList.map_entry name (\<lambda>sec. put_key sec key v) (p_sections (parser st))\<rparr>\<rparr>
      | Proto \<Rightarrow>
          st\<lparr>parser := (parser st)\<lparr>p_sections_proto :=
            map_option (\<lambda>sec. put_key sec key v) (p_sections_proto (parser st))\<rparr>\<rparr>)"

text \<open>
  The last branch of the loop body: the callback, when \<open>_onInvalidLine\<close> is a
  function, else \<open>ParseError\<close>. The callback is the caller's code: the model records
  its argument and takes it to return without touching the parser.
\<close>

definition invalid :: "loop_state \<Rightarrow> nat \<Rightarrow> jsstring \<Rightarrow> error + loop_state" where
  "invalid st lineNumber line =
     (if p_onInvalidLine (parser st) = Some Function
      then Inr (st\<lparr>calls := calls st @
             [\<lparr>il_file = p_file (parser st), il_lineNumber = lineNumber, il_line = line\<rparr>]\<rparr>)
      else Inl (ParseError (file_or_empty (p_file (parser st))) lineNumber line))"

text \<open>The body of \<open>lines.forEach((line, lineNumber) => ...)\<close>; \<open>Inl\<close> is a \<open>throw\<close>.\<close>

definition parse_line :: "js_runtime \<Rightarrow> loop_state \<Rightarrow> nat \<Rightarrow> jsstring \<Rightarrow> error + loop_state" where
  "parse_line rt st lineNumber line =
     (if line = [] \<or> exec COMMENT line \<noteq> None then Inr st
      else case exec SECTION line of
        Some res \<Rightarrow>
          Inr (new_section st (transformKey rt (p_transform (parser st)) (group 1 res)))
      | None \<Rightarrow>
          if curSec st = NoSection
          then Inl (MissingSectionHeaderError (p_file (parser st)) lineNumber line)
          else (case exec KEY line of
                  Some res \<Rightarrow>
                    if group 1 res \<noteq> [] \<and> take 1 line \<noteq> js ''=''
                    then Inr (curSec_put st
                                (transformKey rt (p_transform (parser st)) (group 1 res))
                                (group 2 res))
                    else invalid st lineNumber line
                | None \<Rightarrow> invalid st lineNumber line))"

text \<open>
  \<open>forEach\<close> from index \<open>lineNumber\<close> on. An exception ends the loop and leaves the
  parser as the lines before it made it.
\<close>

fun forEach :: "js_runtime \<Rightarrow> loop_state \<Rightarrow> nat \<Rightarrow> jsstring list \<Rightarrow> loop_state \<times> error option" where
  "forEach rt st lineNumber [] = (st, None)"
| "forEach rt st lineNumber (line # lines) =
     (case parse_line rt st lineNumber line of
        Inl e \<Rightarrow> (st, Some e)
      | Inr st' \<Rightarrow> forEach rt st' (Suc lineNumber) lines)"

definition parseLines :: "js_runtime \<Rightarrow> config_parser \<Rightarrow> jsstring list \<Rightarrow> loop_state \<times> error option" where
  "parseLines rt cp lines =
     forEach rt \<lparr>parser = cp, curSec = NoSection, calls = []\<rparr> 0 (map strip_leading lines)"

text \<open>
  \<open>read(file)\<close>, given the text \<open>fs.readFileSync(file).toString('utf8')\<close> of the file.
\<close>

definition read :: "js_runtime \<Rightarrow> config_parser \<Rightarrow> file_id \<Rightarrow> jsstring \<Rightarrow> loop_state \<times> error option" where
  "read rt cp f content = parseLines rt (cp\<lparr>p_file := Some f\<rparr>) (split_lines content)"

section \<open>Reading the store\<close>

text \<open>
  \<open>this._sections.hasOwnProperty(name)\<close>. The method is found on \<open>_sections\<close> itself,
  then on its prototype: where a section named \<open>hasOwnProperty\<close> exists (or a key of
  that name in the section \<open>__proto__\<close>), the value found is no function and the call
  raises \<open>TypeError\<close>.
\<close>

definition sections_hasOwnProperty :: "config_parser \<Rightarrow> jsstring \<Rightarrow> error + bool" where
  "sections_hasOwnProperty cp name =
     (if own (p_sections cp) hasOwnProperty_name then Inl TypeError
      else case p_sections_proto cp of
        None \<Rightarrow> Inr (own (p_sections cp) name)
      | Some proto \<Rightarrow>
          if own proto hasOwnProperty_name then Inl TypeError
          else Inr (own (p_sections cp) name))"

text \<open>\<open>keys.hasOwnProperty(key)\<close> on a section, whose prototype is \<open>Object.prototype\<close>.\<close>

definition section_hasOwnProperty :: "ini_section \<Rightarrow> jsstring \<Rightarrow> error + bool" where
  "section_hasOwnProperty sec key =
     (if own sec hasOwnProperty_name then Inl TypeError else Inr (own sec key))"

text \<open>The property names of \<open>Object.prototype\<close>.\<close>

definition object_prototype_names :: "jsstring list" where
  "object_prototype_names = map js
     [''constructor'', ''__defineGetter__'', ''__defineSetter__'', ''hasOwnProperty'',
      ''__lookupGetter__'', ''__lookupSetter__'', ''isPrototypeOf'',
      ''propertyIsEnumerable'', ''toString'', ''valueOf'', ''__proto__'',
      ''toLocaleString'']"

text \<open>
  A value read from a section: \<open>undefined\<close>, a string, or the member of
  \<open>Object.prototype\<close> of the given name (a function; \<open>Object.prototype\<close> itself for
  \<open>__proto__\<close>).
\<close>

datatype jsvalue = Undefined | Str jsstring | Inherited jsstring

text \<open>\<open>this._sections[name]\<close> for a \<open>name\<close> that \<open>hasOwnProperty\<close> has accepted.\<close>

definition section_of :: "config_parser \<Rightarrow> jsstring \<Rightarrow> ini_section" where
  "section_of cp name = (case map_of (p_sections cp) name of Some sec \<Rightarrow> sec | None \<Rightarrow> [])"

text \<open>\<open>sec[key]\<close>\<close>

definition section_get :: "ini_section \<Rightarrow> jsstring \<Rightarrow> jsvalue" where
  "section_get sec key =
     (case map_of sec key of
        Some v \<Rightarrow> Str v
      | None \<Rightarrow> if key \<in> set object_prototype_names then Inherited key else Undefined)"

text \<open>\<open>ToString\<close> of such a value.\<close>

fun ToString :: "jsvalue \<Rightarrow> jsstring" where
  "ToString Undefined = js ''undefined''"
| "ToString (Str s) = s"
| "ToString (Inherited name) =
     (if name = proto_name then js ''[object Object]''
      else if name = js ''constructor'' then js ''function Object() { [native code] }''
      else js ''function '' @ name @ js ''() { [native code] }'')"

subsection \<open>parseInt\<close>

text \<open>
  \<open>parseInt(string, radix)\<close> as ECMAScript defines it, on the string \<open>ToString\<close> gave.
  The result is \<open>NaN\<close> or the Number for the integer the digits denote: the integer
  itself below \<open>2^53\<close>, else the nearest double, a tie going to the even significand,
  and an infinity from \<open>2^1024\<close> on; a zero after \<open>-\<close> is \<open>-0\<close>. (ECMAScript allows an
  implementation to approximate the integer before it is rounded, past the 20th digit
  in radix 10 and in the radices other than 2, 4, 8, 10, 16 and 32; the integer is
  taken exactly here.)
\<close>

datatype jsnumber = NaN | Num int | NegativeZero | Infinity | NegativeInfinity

fun bit_length :: "nat \<Rightarrow> nat" where
  "bit_length n = (if n = 0 then 0 else Suc (bit_length (n div 2)))"

declare bit_length.simps [simp del]

text \<open>The double nearest to a natural number; \<open>None\<close> is the infinity.\<close>

definition to_double :: "nat \<Rightarrow> nat option" where
  "to_double n =
     (if n < 2 ^ 53 then Some n
      else
        let e = bit_length n - 53;
            q = n div 2 ^ e;
            r = n mod 2 ^ e;
            half = 2 ^ (e - 1);
            m = (if half < r \<or> (r = half \<and> odd q) then q + 1 else q) * 2 ^ e
        in if 2 ^ 1024 \<le> m then None else Some m)"

definition digit_of :: "jschar \<Rightarrow> nat option" where
  "digit_of c =
     (if 0x30 \<le> c \<and> c \<le> 0x39 then Some (unat c - 0x30)
      else if 0x61 \<le> c \<and> c \<le> 0x7A then Some (unat c - 0x61 + 10)
      else if 0x41 \<le> c \<and> c \<le> 0x5A then Some (unat c - 0x41 + 10)
      else None)"

definition is_digit_in :: "nat \<Rightarrow> jschar \<Rightarrow> bool" where
  "is_digit_in R c = (case digit_of c of Some d \<Rightarrow> d < R | None \<Rightarrow> False)"

definition digits_value :: "nat \<Rightarrow> jsstring \<Rightarrow> nat" where
  "digits_value R Z =
     foldl (\<lambda>acc c. acc * R + (case digit_of c of Some d \<Rightarrow> d | None \<Rightarrow> 0)) 0 Z"

definition parseInt :: "jsstring \<Rightarrow> int \<Rightarrow> jsnumber" where
  "parseInt inputString radix =
     (let S = dropWhile is_space inputString;
          sign = (if take 1 S = js ''-'' then - 1 else 1);
          S1 = (if take 1 S = js ''+'' \<or> take 1 S = js ''-'' then drop 1 S else S);
          R = sint (word_of_int radix :: 32 word)
      in if R \<noteq> 0 \<and> (R < 2 \<or> 36 < R) then NaN
         else
           let stripPrefix = (R = 0 \<or> R = 16);
               hex = (stripPrefix \<and> (take 2 S1 = js ''0x'' \<or> take 2 S1 = js ''0X''));
               S2 = (if hex then drop 2 S1 else S1);
               R' = (if hex then 16 else if R = 0 then 10 else nat R);
               Z = takeWhile (is_digit_in R') S2
           in if Z = [] then NaN
              else (case to_double (digits_value R' Z) of
                      None \<Rightarrow> if sign < 0 then NegativeInfinity else Infinity
                    | Some m \<Rightarrow> if m = 0 \<and> sign < 0 then NegativeZero else Num (sign * int m)))"

section \<open>Interpolation\<close>

text \<open>
  Modelled from the spec: \<open>interpolation.js\<close> is not among the sources. The resolver
  follows section 4.2 of the spec: a value is scanned for placeholders \<open>%(name)s\<close>;
  a referenced key is looked up in the originating section, then in the section
  \<open>DEFAULT\<close>; its own value is resolved before it is substituted; the chain of keys
  being expanded is tracked, and a key on the chain, or one found in neither section,
  is an \<open>InterpolationError\<close>.
\<close>

datatype token = Text jsstring | Ref jsstring

datatype scan_mode = Plain | Name jsstring

fun scan :: "scan_mode \<Rightarrow> jsstring \<Rightarrow> token list" where
  "scan Plain [] = []"
| "scan Plain [c] = [Text [c]]"
| "scan Plain (c # d # cs) =
     (if c = 0x25 \<and> d = 0x28 then scan (Name []) cs else Text [c] # scan Plain (d # cs))"
| "scan (Name n) [] = [Text (js ''%('' @ n)]"
| "scan (Name n) [c] = [Text (js ''%('' @ n @ [c])]"
| "scan (Name n) (c # d # cs) =
     (if c = 0x29 \<and> d = 0x73 then Ref n # scan Plain cs
      else scan (Name (n @ [c])) (d # cs))"

definition DEFAULT_name :: jsstring where
  "DEFAULT_name = js ''DEFAULT''"

definition lookup_ref :: "config_parser \<Rightarrow> jsstring \<Rightarrow> jsstring \<Rightarrow> jsstring option" where
  "lookup_ref cp sect key =
     (case map_of (section_of cp sect) key of
        Some v \<Rightarrow> Some v
      | None \<Rightarrow> map_of (section_of cp DEFAULT_name) key)"

definition ref_keys :: "config_parser \<Rightarrow> jsstring \<Rightarrow> jsstring set" where
  "ref_keys cp sect = fst ` set (section_of cp sect) \<union> fst ` set (section_of cp DEFAULT_name)"

function expand :: "config_parser \<Rightarrow> jsstring \<Rightarrow> jsstring list \<Rightarrow> token list \<Rightarrow> error + jsstring" where
  "expand cp sect chain [] = Inr []"
| "expand cp sect chain (Text t # ts) =
     (case expand cp sect chain ts of Inl e \<Rightarrow> Inl e | Inr r \<Rightarrow> Inr (t @ r))"
| "expand cp sect chain (Ref k # ts) =
     (if k \<in> set chain then Inl InterpolationError
      else case lookup_ref cp sect k of
        None \<Rightarrow> Inl InterpolationError
      | Some raw \<Rightarrow>
          (case expand cp sect (k # chain) (scan Plain raw) of
             Inl e \<Rightarrow> Inl e
           | Inr v \<Rightarrow>
               (case expand cp sect chain ts of Inl e \<Rightarrow> Inl e | Inr r \<Rightarrow> Inr (v @ r))))"
  by pat_completeness auto

termination expand
proof (relation "inv_image (less_than <*lex*> less_than)
         (\<lambda>(cp, sect, chain, ts). (card (ref_keys cp sect - set chain), length ts))")
  show "wf (inv_image (less_than <*lex*> less_than)
         (\<lambda>(cp, sect, chain, ts). (card (ref_keys cp sect - set chain), length ts)))"
    by (intro wf_inv_image wf_lex_prod wf_less_than)
next
  fix cp sect chain t ts
  show "((cp, sect, chain, ts), (cp, sect, chain, Text t # ts))
        \<in> inv_image (less_than <*lex*> less_than)
            (\<lambda>(cp, sect, chain, ts). (card (ref_keys cp sect - set chain), length ts))"
    by simp
next
  fix cp sect chain k ts raw
  assume "k \<notin> set chain" and "lookup_ref cp sect k = Some raw"
  then have "k \<in> ref_keys cp sect - set chain"
    by (auto simp: lookup_ref_def ref_keys_def split: option.splits dest: map_of_SomeD
             intro: rev_image_eqI)
  moreover have "finite (ref_keys cp sect - set chain)"
    by (simp add: ref_keys_def)
  ultimately have "card ((ref_keys cp sect - set chain) - {k}) < card (ref_keys cp sect - set chain)"
    by (rule card_Diff1_less [rotated])
  moreover have "ref_keys cp sect - set (k # chain) = (ref_keys cp sect - set chain) - {k}"
    by auto
  ultimately have "card (ref_keys cp sect - set (k # chain)) < card (ref_keys cp sect - set chain)"
    by (simp only:)
  then show "((cp, sect, k # chain, scan Plain raw), (cp, sect, chain, Ref k # ts))
        \<in> inv_image (less_than <*lex*> less_than)
            (\<lambda>(cp, sect, chain, ts). (card (ref_keys cp sect - set chain), length ts))"
    by simp
next
  fix cp sect chain k ts raw x
  show "((cp, sect, chain, ts), (cp, sect, chain, Ref k # ts))
        \<in> inv_image (less_than <*lex*> less_than)
            (\<lambda>(cp, sect, chain, ts). (card (ref_keys cp sect - set chain), length ts))"
    by simp
qed

text \<open>\<open>interpolation.interpolate(parser, section, key)\<close>\<close>

definition interpolate :: "config_parser \<Rightarrow> jsstring \<Rightarrow> jsstring \<Rightarrow> error + jsvalue" where
  "interpolate cp sect key =
     (case map_of (section_of cp sect) key of
        None \<Rightarrow> Inr Undefined
      | Some raw \<Rightarrow>
          (case expand cp sect [key] (scan Plain raw) of
             Inl e \<Rightarrow> Inl e
           | Inr v \<Rightarrow> Inr (Str v)))"

section \<open>The accessors\<close>

text \<open>\<open>get(section, key, raw)\<close>\<close>

definition get :: "config_parser \<Rightarrow> jsstring \<Rightarrow> jsstring \<Rightarrow> bool \<Rightarrow> error + jsvalue" where
  "get cp sect key raw =
     (case sections_hasOwnProperty cp sect of
        Inl e \<Rightarrow> Inl e
      | Inr has \<Rightarrow>
          if has
          then (if raw then Inr (section_get (section_of cp sect) key)
                else interpolate cp sect key)
          else Inr Undefined)"

text \<open>
  \<open>getInt(section, key, radix)\<close>; \<open>None\<close> as radix is an omitted argument, \<open>None\<close> as
  result is \<open>undefined\<close>.
\<close>

definition getInt :: "config_parser \<Rightarrow> jsstring \<Rightarrow> jsstring \<Rightarrow> int option \<Rightarrow> error + jsnumber option" where
  "getInt cp sect key radix =
     (case sections_hasOwnProperty cp sect of
        Inl e \<Rightarrow> Inl e
      | Inr has \<Rightarrow>
          if has
          then Inr (Some (parseInt (ToString (section_get (section_of cp sect) key))
                            (case radix of None \<Rightarrow> 10 | Some r \<Rightarrow> if r = 0 then 10 else r)))
          else Inr None)"

text \<open>\<open>set(section, key, value)\<close> for a string \<open>value\<close>\<close>

definition set_value :: "config_parser \<Rightarrow> jsstring \<Rightarrow> jsstring \<Rightarrow> jsstring \<Rightarrow> error + config_parser" where
  "set_value cp sect key v =
     (case sections_hasOwnProperty cp sect of
        Inl e \<Rightarrow> Inl e
      | Inr has \<Rightarrow>
          if has
          then Inr (cp\<lparr>p_sections :=
                 AList.map_entry sect (\<lambda>sec. put_key sec key v) (p_sections cp)\<rparr>)
          else Inr cp)"

text \<open>
  The order in which an object lists its own property names (\<open>Object.keys\<close>, \<open>for
  ... in\<close>): the array indices (canonical decimal numerals below \<open>2^32 - 1\<close>) in
  ascending order, then the other names in the order of their creation.
\<close>

definition array_index :: "jsstring \<Rightarrow> nat option" where
  "array_index s =
     (if s \<noteq> [] \<and> list_all (\<lambda>c. 0x30 \<le> c \<and> c \<le> 0x39) s \<and> (s = js ''0'' \<or> take 1 s \<noteq> js ''0'')
         \<and> digits_value 10 s < 2 ^ 32 - 1
      then Some (digits_value 10 s) else None)"

definition own_keys :: "'v js_object \<Rightarrow> jsstring list" where
  "own_keys obj =
     sort_key (\<lambda>k. case array_index k of Some n \<Rightarrow> n | None \<Rightarrow> 0)
       (filter (\<lambda>k. array_index k \<noteq> None) (map fst obj))
     @ filter (\<lambda>k. array_index k = None) (map fst obj)"

text \<open>
  \<open>this._sections[name]\<close> without a guard, as \<open>keys\<close> reads it: an own property, else
  a key of the replaced prototype (a string), else a member of \<open>Object.prototype\<close>
  (for \<open>__proto__\<close>: the prototype itself), else \<open>undefined\<close>.
\<close>

datatype sections_value =
    NoValue
  | SectionObject ini_section
  | StringValue jsstring
  | PrototypeMember jsstring

definition sections_get :: "config_parser \<Rightarrow> jsstring \<Rightarrow> sections_value" where
  "sections_get cp name =
     (case map_of (p_sections cp) name of
        Some sec \<Rightarrow> SectionObject sec
      | None \<Rightarrow>
          (case p_sections_proto cp of
             Some proto \<Rightarrow>
               (case map_of proto name of
                  Some v \<Rightarrow> StringValue v
                | None \<Rightarrow>
                    if name = proto_name then SectionObject proto
                    else if name \<in> set object_prototype_names then PrototypeMember name
                    else NoValue)
           | None \<Rightarrow>
               if name \<in> set object_prototype_names then PrototypeMember name else NoValue))"

fun decimal :: "nat \<Rightarrow> jsstring" where
  "decimal n =
     (if n < 10 then [of_nat (0x30 + n)] else decimal (n div 10) @ [of_nat (0x30 + n mod 10)])"

text \<open>
  \<open>keys(section)\<close>: \<open>Object.keys\<close> raises on \<open>undefined\<close>, which the \<open>catch\<close> turns
  into \<open>NoSectionError\<close>; of a string it lists the indices, of a function or of
  \<open>Object.prototype\<close> nothing.
\<close>

definition keys :: "config_parser \<Rightarrow> jsstring \<Rightarrow> error + jsstring list" where
  "keys cp sect =
     (case sections_get cp sect of
        NoValue \<Rightarrow> Inl (NoSectionError sect)
      | SectionObject sec \<Rightarrow> Inr (own_keys sec)
      | StringValue v \<Rightarrow> Inr (map decimal [0..<length v])
      | PrototypeMember name \<Rightarrow> Inr [])"

section \<open>getSectionsAsString\<close>

text \<open>
  \<open>for (key in keys)\<close> over a section visits its own names: \<open>Object.prototype\<close> has
  no enumerable property. The body calls \<open>keys.hasOwnProperty(key)\<close>.
\<close>

fun keys_loop :: "ini_section \<Rightarrow> jsstring list \<Rightarrow> jsstring \<Rightarrow> error + jsstring" where
  "keys_loop sec [] out = Inr out"
| "keys_loop sec (key # ks) out =
     (case section_hasOwnProperty sec key of
        Inl e \<Rightarrow> Inl e
      | Inr has \<Rightarrow>
          if \<not> has then keys_loop sec ks out
          else keys_loop sec ks
                 (out @ key @ js ''='' @ (case map_of sec key of Some v \<Rightarrow> v | None \<Rightarrow> []) @ [0x0A]))"

text \<open>
  \<open>for (section in this._sections)\<close> visits the own names of \<open>_sections\<close>, then the
  names of its replaced prototype that no own name hides.
\<close>

definition for_in_sections :: "config_parser \<Rightarrow> jsstring list" where
  "for_in_sections cp =
     own_keys (p_sections cp)
     @ (case p_sections_proto cp of
          None \<Rightarrow> []
        | Some proto \<Rightarrow> filter (\<lambda>k. \<not> own (p_sections cp) k) (own_keys proto))"

fun sections_loop :: "config_parser \<Rightarrow> jsstring list \<Rightarrow> jsstring \<Rightarrow> error + jsstring" where
  "sections_loop cp [] out = Inr out"
| "sections_loop cp (sect # ss) out =
     (case sections_hasOwnProperty cp sect of
        Inl e \<Rightarrow> Inl e
      | Inr has \<Rightarrow>
          if \<not> has then sections_loop cp ss out
          else (case keys_loop (section_of cp sect) (own_keys (section_of cp sect))
                       (out @ js ''['' @ sect @ js '']'' @ [0x0A]) of
                  Inl e \<Rightarrow> Inl e
                | Inr out' \<Rightarrow> sections_loop cp ss (out' @ [0x0A])))"

definition getSectionsAsString :: "config_parser \<Rightarrow> error + jsstring" where
  "getSectionsAsString cp = sections_loop cp (for_in_sections cp) []"

text \<open>
  Whether the method \<open>hasOwnProperty\<close> of \<open>_sections\<close> is hidden: the guard of
  \<open>get\<close>, \<open>getInt\<close> and \<open>set\<close> answers by own properties as long as it is not.
\<close>

definition hasOwnProperty_hidden :: "config_parser \<Rightarrow> bool" where
  "hasOwnProperty_hidden cp \<longleftrightarrow>
     own (p_sections cp) hasOwnProperty_name
     \<or> (case p_sections_proto cp of None \<Rightarrow> False | Some proto \<Rightarrow> own proto hasOwnProperty_name)"

section \<open>The shapes of a line\<close>

text \<open>
  The tests of the loop body on a line whose leading whitespace is gone, in the order
  the body makes them.
\<close>

definition blank_or_comment :: "jsstring \<Rightarrow> bool" where
  "blank_or_comment line \<longleftrightarrow> line = [] \<or> exec COMMENT line \<noteq> None"

definition is_header :: "jsstring \<Rightarrow> bool" where
  "is_header line \<longleftrightarrow> \<not> blank_or_comment line \<and> exec SECTION line \<noteq> None"

definition is_key_value :: "jsstring \<Rightarrow> bool" where
  "is_key_value line \<longleftrightarrow>
     \<not> blank_or_comment line \<and> exec SECTION line = None
     \<and> (case exec KEY line of
          Some res \<Rightarrow> group 1 res \<noteq> [] \<and> take 1 line \<noteq> js ''=''
        | None \<Rightarrow> False)"

text \<open>The test \<open>res && res[1] !== '' && line[0] !== '='\<close> on the result of \<open>KEY.exec(line)\<close>.\<close>

definition key_value_shape :: "jsstring \<Rightarrow> bool" where
  "key_value_shape line \<longleftrightarrow>
     (case exec KEY line of
        Some res \<Rightarrow> group 1 res \<noteq> [] \<and> take 1 line \<noteq> js ''=''
      | None \<Rightarrow> False)"

definition is_invalid :: "jsstring \<Rightarrow> bool" where
  "is_invalid line \<longleftrightarrow> \<not> blank_or_comment line \<and> \<not> is_header line \<and> \<not> is_key_value line"

text \<open>The class \<open>[=:]\<close> of \<open>KEY\<close>.\<close>

definition is_delimiter :: "jschar \<Rightarrow> bool" where
  "is_delimiter c \<longleftrightarrow> c = 0x3D \<or> c = 0x3A"

section \<open>Notions used in the statements and proofs\<close>

text \<open>
  What the loop has stored so far: every section of the store is one the parser
  started with, or was made by a header line of \<open>L\<close> under the transformed name and
  holds only pairs made by key/value lines of \<open>L\<close>, the key transformed and the value
  as captured; and \<open>curSec\<close>, when it is an own property, is such a section.
\<close>

definition from_header :: "js_runtime \<Rightarrow> jsstring \<Rightarrow> jsstring set \<Rightarrow> jsstring \<Rightarrow> bool" where
  "from_header rt tr L name \<longleftrightarrow>
     (\<exists>l\<in>L. \<exists>res. exec SECTION l = Some res \<and> name = transformKey rt tr (group 1 res))"

definition from_key_value :: "js_runtime \<Rightarrow> jsstring \<Rightarrow> jsstring set \<Rightarrow> jsstring \<times> jsstring \<Rightarrow> bool" where
  "from_key_value rt tr L kv \<longleftrightarrow>
     (\<exists>l\<in>L. \<exists>res. exec KEY l = Some res \<and> fst kv = transformKey rt tr (group 1 res)
                      \<and> snd kv = group 2 res)"

definition parsed_entry :: "js_runtime \<Rightarrow> jsstring \<Rightarrow> jsstring set \<Rightarrow> jsstring \<times> ini_section \<Rightarrow> bool" where
  "parsed_entry rt tr L e \<longleftrightarrow> from_header rt tr L (fst e) \<and> (\<forall>kv\<in>set (snd e). from_key_value rt tr L kv)"

definition store_inv :: "js_runtime \<Rightarrow> jsstring \<Rightarrow> jsstring set \<Rightarrow> ini_section js_object \<Rightarrow> loop_state \<Rightarrow> bool" where
  "store_inv rt tr L S0 st \<longleftrightarrow>
     (\<forall>e\<in>set (p_sections (parser st)). e \<in> set S0 \<or> parsed_entry rt tr L e)
     \<and> (\<forall>n. curSec st = Own n \<longrightarrow>
           (\<exists>s. map_of (p_sections (parser st)) n = Some s \<and> parsed_entry rt tr L (n, s)))"

text \<open>
  The references of a section: \<open>k\<close> refers to \<open>k'\<close> when the value found for \<open>k\<close> holds
  the placeholder \<open>%(k')s\<close>.
\<close>

definition references :: "config_parser \<Rightarrow> jsstring \<Rightarrow> (jsstring \<times> jsstring) set" where
  "references cp sect =
     {(k, k'). \<exists>raw. lookup_ref cp sect k = Some raw \<and> Ref k' \<in> set (scan Plain raw)}"


section \<open>Serialized text and the stores a parse builds\<close>

text \<open>
  A line holds a bracketed token when some \<open>[\<close> is followed by a character other than
  \<open>]\<close> and, later, by a \<open>]\<close>: the lines on which the unanchored \<open>SECTION\<close> finds a match.
\<close>

fun bracketed :: "jsstring \<Rightarrow> bool" where
  "bracketed [] = False"
| "bracketed (x # xs) =
     ((x = 0x5B \<and> (case xs of [] \<Rightarrow> False | y # ys \<Rightarrow> y \<noteq> 0x5D \<and> 0x5D \<in> set ys)) \<or> bracketed xs)"

text \<open>
  What is used of \<open>toUpperCase\<close> and \<open>toLowerCase\<close>, which the runtime supplies: mapping
  twice is mapping once, a non-empty string stays non-empty, and the mapping brings in
  none of the characters the parser reads: no white space at either end, no leading
  \<open>;\<close> or \<open>#\<close>, no \<open>]\<close>, delimiter or line boundary, and no bracketed token.
\<close>

definition case_mapping :: "(jsstring \<Rightarrow> jsstring) \<Rightarrow> bool" where
  "case_mapping T \<longleftrightarrow>
     (\<forall>s. T (T s) = T s)
     \<and> (\<forall>s. s \<noteq> [] \<longrightarrow> T s \<noteq> [])
     \<and> (\<forall>s. s \<noteq> [] \<and> is_space (hd (T s)) \<longrightarrow> is_space (hd s))
     \<and> (\<forall>s. s \<noteq> [] \<and> (hd (T s) = 0x3B \<or> hd (T s) = 0x23) \<longrightarrow> hd (T s) = hd s)
     \<and> (\<forall>s. s \<noteq> [] \<and> is_space (last (T s)) \<longrightarrow> is_space (last s))
     \<and> (\<forall>s c. c \<in> set (T s) \<and> (c = 0x5D \<or> is_delimiter c \<or> is_line_boundary c) \<longrightarrow> c \<in> set s)
     \<and> (\<forall>k m. bracketed (T k @ m) \<longrightarrow> bracketed (k @ m))"

text \<open>
  The names, keys and values that \<open>parseLines\<close> stores under the transform \<open>T\<close>, as far
  as the serialized text depends on them: a section name is what \<open>[^\]]+\<close> captured, a
  key is what \<open>(.*?)\<close> captured on a line that is no comment and no header, a value is
  what \<open>(.*)\<close> captured after \<open>\s*\<close>, and each name is a fixed point of \<open>T\<close>. Nothing is
  stored under \<open>__proto__\<close>.
\<close>

definition wf_name :: "(jsstring \<Rightarrow> jsstring) \<Rightarrow> jsstring \<Rightarrow> bool" where
  "wf_name T n \<longleftrightarrow>
     n \<noteq> [] \<and> 0x5D \<notin> set n \<and> (\<forall>c\<in>set n. \<not> is_line_boundary c) \<and> n \<noteq> proto_name \<and> T n = n"

definition wf_key_value :: "(jsstring \<Rightarrow> jsstring) \<Rightarrow> jsstring \<Rightarrow> jsstring \<Rightarrow> bool" where
  "wf_key_value T k v \<longleftrightarrow>
     k \<noteq> [] \<and> \<not> is_space (hd k) \<and> hd k \<noteq> 0x3B \<and> hd k \<noteq> 0x23 \<and> \<not> is_space (last k)
     \<and> (\<forall>c\<in>set k. \<not> is_delimiter c \<and> \<not> is_line_boundary c) \<and> k \<noteq> proto_name
     \<and> (v = [] \<or> \<not> is_space (hd v)) \<and> (\<forall>c\<in>set v. \<not> is_line_boundary c)
     \<and> \<not> bracketed (k @ 0x3D # v) \<and> T k = k"

definition wf_section :: "(jsstring \<Rightarrow> jsstring) \<Rightarrow> ini_section \<Rightarrow> bool" where
  "wf_section T sec \<longleftrightarrow> distinct (map fst sec) \<and> (\<forall>kv\<in>set sec. wf_key_value T (fst kv) (snd kv))"

definition wf_store :: "(jsstring \<Rightarrow> jsstring) \<Rightarrow> ini_section js_object \<Rightarrow> bool" where
  "wf_store T S \<longleftrightarrow> distinct (map fst S) \<and> (\<forall>e\<in>set S. wf_name T (fst e) \<and> wf_section T (snd e))"

text \<open>A line as \<open>parseLines\<close> sees it: without leading white space, and with no line boundary.\<close>

definition clean_line :: "jsstring \<Rightarrow> bool" where
  "clean_line l \<longleftrightarrow> (l = [] \<or> \<not> is_space (hd l)) \<and> (\<forall>c\<in>set l. \<not> is_line_boundary c)"

text \<open>
  The text \<open>getSectionsAsString\<close> builds when no guard raises: for each own section in
  the order of \<open>for...in\<close>, the line \<open>[name]\<close>, a line \<open>key=value\<close> for each own key in
  the order of \<open>for...in\<close>, and an empty line; every line ends with \<open>\n\<close>.
\<close>

definition unlines :: "jsstring list \<Rightarrow> jsstring" where
  "unlines ls = concat (map (\<lambda>l. l @ [0x0A]) ls)"

definition key_line :: "jsstring \<times> jsstring \<Rightarrow> jsstring" where
  "key_line kv = fst kv @ 0x3D # snd kv"

definition entries :: "'v js_object \<Rightarrow> 'v \<Rightarrow> (jsstring \<times> 'v) list" where
  "entries obj d = map (\<lambda>k. (k, case map_of obj k of Some v \<Rightarrow> v | None \<Rightarrow> d)) (own_keys obj)"

definition section_lines :: "jsstring \<times> ini_section \<Rightarrow> jsstring list" where
  "section_lines e = (0x5B # fst e @ [0x5D]) # map key_line (entries (snd e) []) @ [[]]"

definition serialized :: "config_parser \<Rightarrow> jsstring" where
  "serialized cp =
     unlines (concat (map (\<lambda>n. section_lines (n, section_of cp n)) (own_keys (p_sections cp))))"

text \<open>
  The raw content of the store: for each section name, the map from its keys to their
  values. Two objects with the same own properties have the same content.
\<close>

definition store_content :: "config_parser \<Rightarrow> jsstring \<Rightarrow> (jsstring \<Rightarrow> jsstring option) option" where
  "store_content cp n = map_option map_of (map_of (p_sections cp) n)"

section \<open>Concrete inputs\<close>

text \<open>\<open>new ConfigParser()\<close>, and a runtime whose case mappings change the ASCII letters only.\<close>

definition default_parser :: config_parser where
  "default_parser = ConfigParser \<lparr>opt_transform = None, opt_onInvalidLine = None\<rparr>"

definition ascii_upper :: "jsstring \<Rightarrow> jsstring" where
  "ascii_upper = map (\<lambda>c. if 0x61 \<le> c \<and> c \<le> 0x7A then c - 0x20 else c)"

definition ascii_lower :: "jsstring \<Rightarrow> jsstring" where
  "ascii_lower = map (\<lambda>c. if 0x41 \<le> c \<and> c \<le> 0x5A then c + 0x20 else c)"

definition ascii_runtime :: js_runtime where
  "ascii_runtime = \<lparr>toUpperCase = ascii_upper, toLowerCase = ascii_lower\<rparr>"

text \<open>The two case mappings of that runtime, character by character.\<close>

definition ascii_upper_char :: "jschar \<Rightarrow> jschar" where
  "ascii_upper_char c = (if 0x61 \<le> c \<and> c \<le> 0x7A then c - 0x20 else c)"

definition ascii_lower_char :: "jschar \<Rightarrow> jschar" where
  "ascii_lower_char c = (if 0x41 \<le> c \<and> c \<le> 0x5A then c + 0x20 else c)"

section \<open>Evaluation rules\<close>

lemmas regex_defs = SECTION_def KEY_def COMMENT_def LEADING_SPACE_def strip_leading_def
  matched_def group_def is_space_def is_line_terminator_def is_line_boundary_def

lemmas parse_defs = read_def parseLines_def parse_line_def invalid_def new_section_def
  curSec_put_def put_key_def transformKey_def proto_name_def ConfigParser_def
  default_parser_def js_def

lemmas store_defs = sections_hasOwnProperty_def section_hasOwnProperty_def own_def
  hasOwnProperty_name_def section_of_def section_get_def object_prototype_names_def

section \<open>What the patterns match\<close>

lemma rmatch_space_star: "rmatch [Atom Space Star g] s = Some (map (Pair g) (takeWhile is_space s))"
  by (induction s) auto

lemma strip_leading_eq: "strip_leading s = dropWhile is_space s"
proof (cases s)
  case Nil
  then show ?thesis by (simp add: strip_leading_def LEADING_SPACE_def)
next
  case (Cons x xs)
  then show ?thesis
    by (simp add: strip_leading_def LEADING_SPACE_def matched_def rmatch_space_star
                  dropWhile_eq_drop)
qed

lemma rmatch_any_star:
  "rmatch [Atom AnyChar Star g] s = Some (map (Pair g) (takeWhile (\<lambda>c. \<not> is_line_terminator c) s))"
  by (induction s) auto

lemma rmatch_value:
  "rmatch [Atom Space Star 0, Atom AnyChar Star 2] s =
     Some (map (Pair 0) (takeWhile is_space s)
           @ map (Pair 2) (takeWhile (\<lambda>c. \<not> is_line_terminator c) (dropWhile is_space s)))"
proof (induction s)
  case Nil
  then show ?case by simp
next
  case (Cons x xs)
  then show ?case by (simp add: rmatch_any_star)
qed

lemma delimiter_not_space: "is_delimiter c \<Longrightarrow> \<not> is_space c"
  by (auto simp: is_delimiter_def is_space_def)

lemma rmatch_key_tail_fail:
  "dropWhile is_space s = [] \<or> \<not> is_delimiter (hd (dropWhile is_space s)) \<Longrightarrow>
   rmatch [Atom Space Star 0, Atom (OneOf [0x3D, 0x3A]) Once 0, Atom Space Star 0,
           Atom AnyChar Star 2] s = None"
proof (induction s)
  case Nil
  then show ?case by simp
next
  case (Cons x xs)
  then show ?case
    by (cases "is_space x") (auto simp: is_delimiter_def is_space_def)
qed

lemma rmatch_key_tail:
  "\<forall>c\<in>set ws. is_space c \<Longrightarrow> is_delimiter d \<Longrightarrow>
   rmatch [Atom Space Star 0, Atom (OneOf [0x3D, 0x3A]) Once 0, Atom Space Star 0,
           Atom AnyChar Star 2] (ws @ d # v) =
     Some (map (Pair 0) ws @ (0, d) # map (Pair 0) (takeWhile is_space v)
           @ map (Pair 2) (takeWhile (\<lambda>c. \<not> is_line_terminator c) (dropWhile is_space v)))"
proof (induction ws)
  case Nil
  then show ?case
    using delimiter_not_space [of d] by (auto simp: rmatch_value is_delimiter_def)
next
  case (Cons x xs)
  then show ?case by simp
qed


lemma dropWhile_space_key:
  "k \<noteq> [] \<Longrightarrow> \<not> is_space (last k) \<Longrightarrow> \<forall>c\<in>set k. \<not> is_delimiter c \<Longrightarrow>
   dropWhile is_space (k @ rest) \<noteq> [] \<and> \<not> is_delimiter (hd (dropWhile is_space (k @ rest)))"
proof (induction k)
  case Nil
  then show ?case by simp
next
  case (Cons x xs)
  show ?case
  proof (cases "xs = []")
    case True
    with Cons.prems show ?thesis by simp
  next
    case False
    with Cons show ?thesis by (cases "is_space x") auto
  qed
qed

lemma rmatch_key_lazy:
  assumes "k = [] \<or> \<not> is_space (last k)"
    and "\<forall>c\<in>set k. \<not> is_delimiter c \<and> \<not> is_line_terminator c"
    and "\<forall>c\<in>set ws. is_space c" and "is_delimiter d"
  shows "rmatch [Atom AnyChar LazyStar 1, Atom Space Star 0, Atom (OneOf [0x3D, 0x3A]) Once 0,
                 Atom Space Star 0, Atom AnyChar Star 2] (k @ ws @ d # v) =
     Some (map (Pair 1) k @ map (Pair 0) ws @ (0, d) # map (Pair 0) (takeWhile is_space v)
           @ map (Pair 2) (takeWhile (\<lambda>c. \<not> is_line_terminator c) (dropWhile is_space v)))"
  using assms(1,2)
proof (induction k)
  case Nil
  show ?case
    using rmatch_key_tail [OF assms(3,4), of v] by (cases "ws @ d # v") auto
next
  case (Cons x xs)
  have last: "xs = [] \<or> \<not> is_space (last xs)"
    using Cons.prems(1) by (auto split: if_splits)
  have "dropWhile is_space ((x # xs) @ ws @ d # v) \<noteq> [] \<and>
        \<not> is_delimiter (hd (dropWhile is_space ((x # xs) @ ws @ d # v)))"
    using Cons.prems by (intro dropWhile_space_key) auto
  then have "rmatch [Atom Space Star 0, Atom (OneOf [0x3D, 0x3A]) Once 0, Atom Space Star 0,
                     Atom AnyChar Star 2] (x # xs @ ws @ d # v) = None"
    by (intro rmatch_key_tail_fail) simp
  moreover have "\<not> is_line_terminator x" using Cons.prems(2) by simp
  ultimately show ?case
    using Cons.IH [OF last] Cons.prems(2) by simp
qed

lemma exec_KEY:
  assumes "k \<noteq> []" and "\<not> is_space (hd k)" and "\<not> is_space (last k)"
    and "\<forall>c\<in>set k. \<not> is_delimiter c \<and> \<not> is_line_terminator c"
    and "\<forall>c\<in>set ws. is_space c" and "is_delimiter d"
  shows "\<exists>res. exec KEY (k @ ws @ d # v) = Some res \<and> group 1 res = k
           \<and> group 2 res = takeWhile (\<lambda>c. \<not> is_line_terminator c) (dropWhile is_space v)"
proof -
  obtain x xs where k: "k = x # xs" using assms(1) by (cases k) auto
  have "\<not> is_space x" using assms(2) k by simp
  then have "rmatch [Atom Space Star 0, Atom AnyChar LazyStar 1, Atom Space Star 0,
               Atom (OneOf [0x3D, 0x3A]) Once 0, Atom Space Star 0, Atom AnyChar Star 2]
               (k @ ws @ d # v) =
             rmatch [Atom AnyChar LazyStar 1, Atom Space Star 0,
               Atom (OneOf [0x3D, 0x3A]) Once 0, Atom Space Star 0, Atom AnyChar Star 2]
               (k @ ws @ d # v)"
    by (simp add: k)
  also have "\<dots> = Some (map (Pair 1) k @ map (Pair 0) ws @ (0, d) # map (Pair 0) (takeWhile is_space v)
           @ map (Pair 2) (takeWhile (\<lambda>c. \<not> is_line_terminator c) (dropWhile is_space v)))"
    using assms by (intro rmatch_key_lazy) auto
  finally show ?thesis
    by (simp add: KEY_def k group_def filter_map comp_def)
qed

lemma exec_SECTION_header:
  assumes "h \<noteq> []" and "0x5D \<notin> set h"
  shows "\<exists>res. exec SECTION (0x5B # h @ [0x5D]) = Some res \<and> group 1 res = h"
proof -
  have star: "rmatch [Atom (NoneOf [0x5D]) Star 1, Atom (Chr 0x5D) Once 0] (t @ [0x5D]) =
                Some (map (Pair 1) t @ [(0, 0x5D)])" if "0x5D \<notin> set t" for t
    using that by (induction t) auto
  obtain x xs where h: "h = x # xs" using assms(1) by (cases h) auto
  have "rmatch [Atom Space Star 0, Atom (Chr 0x5B) Once 0, Atom (NoneOf [0x5D]) Plus 1,
                Atom (Chr 0x5D) Once 0] (0x5B # h @ [0x5D]) =
          Some ((0, 0x5B) # map (Pair 1) h @ [(0, 0x5D)])"
    using assms(2) star [of xs] by (simp add: h is_space_def)
  then show ?thesis
    by (simp add: SECTION_def group_def filter_map comp_def)
qed

lemma exec_COMMENT_None:
  "s \<noteq> [] \<Longrightarrow> \<not> is_space (hd s) \<Longrightarrow> hd s \<noteq> 0x3B \<Longrightarrow> hd s \<noteq> 0x23 \<Longrightarrow> exec COMMENT s = None"
  by (cases s) (auto simp: COMMENT_def)


lemma split_lines_newline:
  "\<forall>c\<in>set a. \<not> is_line_boundary c \<Longrightarrow> split_lines (a @ 0x0A # b) = a # split_lines b"
proof (induction a)
  case Nil
  then show ?case by (simp add: is_line_boundary_def)
next
  case (Cons x xs)
  then show ?case by (auto simp: is_line_boundary_def)
qed


lemma boundary_terminator: "is_line_terminator c \<Longrightarrow> is_line_boundary c"
  by (auto simp: is_line_terminator_def is_line_boundary_def)

lemma transformKey_none: "transformKey rt (js ''none'') key = key"
  by (simp add: transformKey_def js_def)

lemma trailing_space_split:
  "k = rev (dropWhile is_space (rev k)) @ rev (takeWhile is_space (rev k))"
proof -
  have "rev (dropWhile is_space (rev k)) @ rev (takeWhile is_space (rev k)) =
          rev (takeWhile is_space (rev k) @ dropWhile is_space (rev k))"
    by (simp only: rev_append)
  also have "\<dots> = rev (rev k)"
    by (simp only: takeWhile_dropWhile_id)
  finally show ?thesis by simp
qed




text \<open>
  C2. \<open>SECTION\<close> has no anchors: \<open>SECTION.exec\<close> succeeds on every line that holds a
  bracketed token anywhere. Inside the section \<open>s\<close> the key/value line \<open>k=[x]\<close> starts
  a section \<open>x\<close> and stores no key, and \<open>[a] junk\<close> is the header of \<open>a\<close>.
\<close>

theorem bracketed_token_taken_as_header:
  "p_sections (parser (fst (read rt default_parser f (js ''[s]'' @ [0x0A] @ js ''k=[x]'')))) =
     [(js ''s'', []), (js ''x'', [])]
   \<and> read rt default_parser f (js ''[a] junk'') =
     (\<lparr>parser = default_parser\<lparr>p_file := Some f, p_sections := [(js ''a'', [])]\<rparr>,
        curSec = Own (js ''a''), calls = []\<rparr>, None)"
  by (simp add: regex_defs parse_defs)

section \<open>Where \<open>SECTION\<close> matches\<close>

lemma rmatch_body_star:
  "rmatch [Atom (NoneOf [0x5D]) Star 1, Atom (Chr 0x5D) Once 0] s \<noteq> None \<longleftrightarrow> 0x5D \<in> set s"
  by (induction s) (auto split: option.splits)

lemma rmatch_bracket:
  "rmatch [Atom (Chr 0x5B) Once 0, Atom (NoneOf [0x5D]) Plus 1, Atom (Chr 0x5D) Once 0] (x # xs) \<noteq> None
   \<longleftrightarrow> x = 0x5B \<and> (case xs of [] \<Rightarrow> False | y # ys \<Rightarrow> y \<noteq> 0x5D \<and> 0x5D \<in> set ys)"
  using rmatch_body_star by (cases xs) (auto split: option.splits)

lemma rmatch_section_space:
  "is_space x \<Longrightarrow>
   rmatch [Atom Space Star 0, Atom (Chr 0x5B) Once 0, Atom (NoneOf [0x5D]) Plus 1,
           Atom (Chr 0x5D) Once 0] (x # xs) \<noteq> None \<longleftrightarrow>
   rmatch [Atom Space Star 0, Atom (Chr 0x5B) Once 0, Atom (NoneOf [0x5D]) Plus 1,
           Atom (Chr 0x5D) Once 0] xs \<noteq> None"
  by (auto simp: is_space_def split: option.splits)

lemma search_from_rmatch: "rmatch r s \<noteq> None \<Longrightarrow> search r s \<noteq> None"
  by (cases s) (auto split: option.splits)

lemma search_SECTION_bracketed:
  "search [Atom Space Star 0, Atom (Chr 0x5B) Once 0, Atom (NoneOf [0x5D]) Plus 1,
           Atom (Chr 0x5D) Once 0] s \<noteq> None \<longleftrightarrow> bracketed s"
proof (induction s)
  case Nil
  then show ?case by simp
next
  case (Cons x xs)
  let ?r = "[Atom Space Star 0, Atom (Chr 0x5B) Once 0, Atom (NoneOf [0x5D]) Plus 1,
             Atom (Chr 0x5D) Once 0]"
  have split: "search ?r (x # xs) \<noteq> None \<longleftrightarrow> rmatch ?r (x # xs) \<noteq> None \<or> search ?r xs \<noteq> None"
    by (auto split: option.splits)
  show ?case
  proof (cases "is_space x")
    case True
    then have "x \<noteq> 0x5B" by (auto simp: is_space_def)
    moreover have "rmatch ?r (x # xs) \<noteq> None \<Longrightarrow> search ?r xs \<noteq> None"
      using rmatch_section_space [OF True, of xs] search_from_rmatch by blast
    ultimately show ?thesis
      using split Cons.IH by auto
  next
    case False
    then have "rmatch ?r (x # xs) =
        rmatch [Atom (Chr 0x5B) Once 0, Atom (NoneOf [0x5D]) Plus 1, Atom (Chr 0x5D) Once 0] (x # xs)"
      by simp
    then show ?thesis
      using split Cons.IH rmatch_bracket [of x xs] by simp
  qed
qed

lemma exec_SECTION_bracketed: "exec SECTION s \<noteq> None \<longleftrightarrow> bracketed s"
  using search_SECTION_bracketed by (simp add: SECTION_def)

lemma bracketed_skip: "0x5B \<notin> set m \<Longrightarrow> bracketed (m @ v) = bracketed v"
  by (induction m) auto

lemma bracketed_middle:
  assumes "m \<noteq> []" and "m' \<noteq> []"
    and "0x5B \<notin> set m" "0x5D \<notin> set m" "0x5B \<notin> set m'" "0x5D \<notin> set m'"
  shows "bracketed (k @ m @ v) = bracketed (k @ m' @ v)"
proof (induction k)
  case Nil
  show ?case using assms by (simp add: bracketed_skip)
next
  case (Cons x k)
  have "(case k @ m @ v of [] \<Rightarrow> False | y # ys \<Rightarrow> y \<noteq> 0x5D \<and> 0x5D \<in> set ys) =
        (case k @ m' @ v of [] \<Rightarrow> False | y # ys \<Rightarrow> y \<noteq> 0x5D \<and> 0x5D \<in> set ys)"
  proof (cases k)
    case Nil
    obtain a as where m: "m = a # as" using assms(1) by (cases m) auto
    obtain b bs where m': "m' = b # bs" using assms(2) by (cases m') auto
    show ?thesis using Nil m m' assms(3-6) by auto
  next
    case (Cons y ys)
    then show ?thesis using assms(3-6) by auto
  qed
  with Cons.IH show ?case by simp
qed

lemma rmatch_prefix: "rmatch r s = Some t \<Longrightarrow> \<exists>rest. s = map snd t @ rest"
proof (induction r s arbitrary: t rule: rmatch.induct)
  case (3 c g r x xs)
  then show ?case by (fastforce split: if_splits)
next
  case (5 c g r x xs)
  then show ?case by (fastforce split: if_splits)
next
  case (7 c g r x xs)
  then show ?case by (fastforce split: if_splits option.splits)
next
  case (9 c g r x xs)
  then show ?case by (fastforce split: if_splits option.splits)
qed auto

lemma search_subset: "search r s = Some t \<Longrightarrow> set (map snd t) \<subseteq> set s"
proof (induction s)
  case Nil
  then show ?case using rmatch_prefix [of r "[]" t] by simp
next
  case (Cons x xs)
  show ?case
  proof (cases "rmatch r (x # xs)")
    case None
    with Cons show ?thesis by auto
  next
    case (Some t')
    with Cons.prems have "rmatch r (x # xs) = Some t" by simp
    from rmatch_prefix [OF this] obtain rest where "x # xs = map snd t @ rest" by blast
    then have "set (x # xs) = set (map snd t) \<union> set rest" by (metis set_append)
    then show ?thesis by blast
  qed
qed

lemma rmatch_classes:
  "rmatch r s = Some t \<Longrightarrow> (g, c) \<in> set t \<Longrightarrow> \<exists>cl q. Atom cl q g \<in> set r \<and> cmatch cl c"
proof (induction r s arbitrary: t rule: rmatch.induct)
  case (3 c' g' r x xs)
  then show ?case by (fastforce split: if_splits)
next
  case (5 c' g' r x xs)
  then show ?case by (fastforce split: if_splits)
next
  case (6 c' g' r)
  then show ?case by fastforce
next
  case (7 c' g' r x xs)
  then show ?case by (fastforce split: if_splits option.splits)
next
  case (8 c' g' r)
  then show ?case by fastforce
next
  case (9 c' g' r x xs)
  then show ?case by (fastforce split: if_splits option.splits)
qed auto

lemma rmatch_once_consumes:
  "rmatch r s = Some t \<Longrightarrow> Atom cl Once g \<in> set r \<Longrightarrow> \<exists>c\<in>set s. cmatch cl c"
proof (induction r s arbitrary: t rule: rmatch.induct)
  case (3 c' g' r x xs)
  then show ?case by (fastforce split: if_splits)
next
  case (5 c' g' r x xs)
  then show ?case by (fastforce split: if_splits)
next
  case (6 c' g' r)
  then show ?case by fastforce
next
  case (7 c' g' r x xs)
  then show ?case by (fastforce split: if_splits option.splits)
next
  case (8 c' g' r)
  then show ?case by fastforce
next
  case (9 c' g' r x xs)
  then show ?case by (fastforce split: if_splits option.splits)
qed auto

lemma search_once_consumes:
  "search r s = Some t \<Longrightarrow> Atom cl Once g \<in> set r \<Longrightarrow> \<exists>c\<in>set s. cmatch cl c"
proof (induction s)
  case Nil
  then show ?case using rmatch_once_consumes [of r "[]" t cl g] by simp
next
  case (Cons x xs)
  show ?case
  proof (cases "rmatch r (x # xs)")
    case None
    with Cons show ?thesis by auto
  next
    case (Some t')
    with Cons.prems rmatch_once_consumes [of r "x # xs" t' cl g] show ?thesis by simp
  qed
qed

lemma search_rmatch: "search r s = Some t \<Longrightarrow> \<exists>pre s'. s = pre @ s' \<and> rmatch r s' = Some t"
proof (induction s)
  case Nil
  then show ?case by simp
next
  case (Cons x xs)
  show ?case
  proof (cases "rmatch r (x # xs)")
    case None
    with Cons obtain pre s' where "xs = pre @ s'" "rmatch r s' = Some t" by auto
    then have "x # xs = (x # pre) @ s'" by simp
    with \<open>rmatch r s' = Some t\<close> show ?thesis by blast
  next
    case (Some t')
    with Cons.prems have "rmatch r (x # xs) = Some t" by simp
    then show ?thesis by (metis append_Nil)
  qed
qed

lemma rmatch_plus_nonempty:
  "rmatch r s = Some t \<Longrightarrow> Atom cl Plus g \<in> set r \<Longrightarrow> \<exists>c. (g, c) \<in> set t"
proof (induction r s arbitrary: t rule: rmatch.induct)
  case (3 c' g' r x xs)
  then show ?case by (fastforce split: if_splits)
next
  case (5 c' g' r x xs)
  then show ?case by (fastforce split: if_splits)
next
  case (6 c' g' r)
  then show ?case by fastforce
next
  case (7 c' g' r x xs)
  then show ?case by (fastforce split: if_splits option.splits)
next
  case (8 c' g' r)
  then show ?case by fastforce
next
  case (9 c' g' r x xs)
  then show ?case by (fastforce split: if_splits option.splits)
qed auto

lemma header_name:
  assumes "exec SECTION l = Some res"
  shows "group 1 res \<noteq> []" and "0x5D \<notin> set (group 1 res)" and "set (group 1 res) \<subseteq> set l"
proof -
  let ?r = "[Atom Space Star 0, Atom (Chr 0x5B) Once 0, Atom (NoneOf [0x5D]) Plus 1,
             Atom (Chr 0x5D) Once 0]"
  have s: "search ?r l = Some res" using assms by (simp add: SECTION_def)
  then obtain pre s' where m: "rmatch ?r s' = Some res" using search_rmatch by blast
  from rmatch_plus_nonempty [OF m, of "NoneOf [0x5D]" 1] obtain c where "(1, c) \<in> set res"
    by auto
  then show "group 1 res \<noteq> []"
    by (force simp: group_def filter_empty_conv)
  show "0x5D \<notin> set (group 1 res)"
  proof
    assume "0x5D \<in> set (group 1 res)"
    then have "(1, 0x5D) \<in> set res" by (auto simp: group_def)
    from rmatch_classes [OF m this] show False by auto
  qed
  have "set (group 1 res) \<subseteq> set (map snd res)" by (auto simp: group_def)
  with search_subset [OF s] show "set (group 1 res) \<subseteq> set l" by blast
qed

section \<open>The loop body by the shape of the line\<close>

lemma parse_line_skip: "blank_or_comment line \<Longrightarrow> parse_line rt st n line = Inr st"
  by (auto simp: parse_line_def blank_or_comment_def)

lemma parse_line_header:
  "is_header line \<Longrightarrow> \<exists>res. exec SECTION line = Some res \<and>
     parse_line rt st n line = Inr (new_section st (transformKey rt (p_transform (parser st)) (group 1 res)))"
  by (auto simp: parse_line_def blank_or_comment_def is_header_def)

lemma parse_line_no_section:
  "\<not> blank_or_comment line \<Longrightarrow> \<not> is_header line \<Longrightarrow> curSec st = NoSection \<Longrightarrow>
   parse_line rt st n line = Inl (MissingSectionHeaderError (p_file (parser st)) n line)"
  by (auto simp: parse_line_def blank_or_comment_def is_header_def)

lemma parse_line_key_value:
  "is_key_value line \<Longrightarrow> curSec st \<noteq> NoSection \<Longrightarrow> \<exists>res. exec KEY line = Some res \<and>
     parse_line rt st n line =
       Inr (curSec_put st (transformKey rt (p_transform (parser st)) (group 1 res)) (group 2 res))"
  by (auto simp: parse_line_def blank_or_comment_def is_key_value_def split: option.splits)

lemma parse_line_invalid:
  "is_invalid line \<Longrightarrow> curSec st \<noteq> NoSection \<Longrightarrow> parse_line rt st n line = invalid st n line"
  by (auto simp: parse_line_def blank_or_comment_def is_invalid_def is_header_def is_key_value_def
           split: option.splits)

lemma forEach_no_section:
  assumes "curSec st = NoSection"
    and "\<forall>l\<in>set pre. \<not> is_header l"
    and "\<not> blank_or_comment l" and "\<not> is_header l"
  shows "\<exists>n\<le>length pre. \<not> blank_or_comment ((pre @ [l]) ! n) \<and> (\<forall>m<n. blank_or_comment (pre ! m))
           \<and> forEach rt st k (pre @ l # post) =
               (st, Some (MissingSectionHeaderError (p_file (parser st)) (k + n) ((pre @ [l]) ! n)))"
  using assms(2)
proof (induction pre arbitrary: k)
  case Nil
  show ?case
    using assms(1,3,4) by (simp add: parse_line_no_section)
next
  case (Cons p pre)
  show ?case
  proof (cases "blank_or_comment p")
    case True
    from Cons obtain n where n: "n \<le> length pre" "\<not> blank_or_comment ((pre @ [l]) ! n)"
      "\<forall>m<n. blank_or_comment (pre ! m)"
      "forEach rt st (Suc k) (pre @ l # post) =
         (st, Some (MissingSectionHeaderError (p_file (parser st)) (Suc k + n) ((pre @ [l]) ! n)))"
      by force
    have "\<forall>m<Suc n. blank_or_comment ((p # pre) ! m)"
      using True n(3) by (auto simp: less_Suc_eq_0_disj)
    with n True show ?thesis
      by (intro exI [of _ "Suc n"]) (simp add: parse_line_skip)
  next
    case False
    moreover have "\<not> is_header p" using Cons.prems by simp
    ultimately show ?thesis
      using assms(1) by (intro exI [of _ 0]) (simp add: parse_line_no_section)
  qed
qed

text \<open>
  Where \<open>SECTION.exec\<close> fails on a line that is neither blank nor a comment, and on
  every line before it: \<open>parseLines\<close> ends with \<open>MissingSectionHeaderError\<close> (so not with
  \<open>ParseError\<close>), raised at the first line \<open>n\<close> that is neither blank nor a comment; the
  error carries \<open>_file\<close>, the index \<open>n\<close> and the text of that line without its leading
  whitespace.
\<close>

lemma missing_section_header:
  assumes "i < length lines"
    and "\<forall>j<i. \<not> is_header (strip_leading (lines ! j))"
    and "\<not> blank_or_comment (strip_leading (lines ! i))"
    and "\<not> is_header (strip_leading (lines ! i))"
  shows "\<exists>n\<le>i. \<not> blank_or_comment (strip_leading (lines ! n))
           \<and> (\<forall>m<n. blank_or_comment (strip_leading (lines ! m)))
           \<and> snd (parseLines rt cp lines) =
               Some (MissingSectionHeaderError (p_file cp) n (strip_leading (lines ! n)))"
proof -
  let ?ls = "map strip_leading lines"
  let ?pre = "take i ?ls"
  have split: "?ls = ?pre @ (?ls ! i) # drop (Suc i) ?ls"
    using id_take_nth_drop [of i ?ls] assms(1) by simp
  have pre: "\<forall>l\<in>set ?pre. \<not> is_header l"
    using assms(1,2) by (auto simp: in_set_conv_nth)
  have len: "length ?pre = i" using assms(1) by simp
  obtain n where n: "n \<le> i" "\<not> blank_or_comment ((?pre @ [?ls ! i]) ! n)"
      "\<forall>m<n. blank_or_comment (?pre ! m)"
      "forEach rt \<lparr>parser = cp, curSec = NoSection, calls = []\<rparr> 0 (?pre @ (?ls ! i) # drop (Suc i) ?ls) =
         (\<lparr>parser = cp, curSec = NoSection, calls = []\<rparr>,
          Some (MissingSectionHeaderError (p_file cp) (0 + n) ((?pre @ [?ls ! i]) ! n)))"
    using forEach_no_section [of "\<lparr>parser = cp, curSec = NoSection, calls = []\<rparr>" ?pre "?ls ! i" rt 0
        "drop (Suc i) ?ls"] pre assms(1,3,4) len
    by auto
  have nth: "(?pre @ [?ls ! i]) ! n = strip_leading (lines ! n)"
    using n(1) assms(1) by (cases "n = i") (simp_all add: nth_append)
  have "\<forall>m<n. blank_or_comment (strip_leading (lines ! m))"
    using n(1,3) assms(1) by auto
  moreover have "snd (parseLines rt cp lines) =
      Some (MissingSectionHeaderError (p_file cp) n (strip_leading (lines ! n)))"
    unfolding parseLines_def using n(4) nth split by simp
  ultimately show ?thesis
    using n(1,2) nth by auto
qed


lemma missing_section_header_example:
  "(2::nat) < length [js ''; note'', [], js ''  k=v'', js ''[s]'']
   \<and> \<not> is_header (strip_leading ([js ''; note'', [], js ''  k=v'', js ''[s]''] ! 0))
   \<and> \<not> is_header (strip_leading ([js ''; note'', [], js ''  k=v'', js ''[s]''] ! 1))
   \<and> \<not> blank_or_comment (strip_leading ([js ''; note'', [], js ''  k=v'', js ''[s]''] ! 2))
   \<and> \<not> is_header (strip_leading ([js ''; note'', [], js ''  k=v'', js ''[s]''] ! 2))
   \<and> (\<exists>n\<le>2. \<not> blank_or_comment (strip_leading ([js ''; note'', [], js ''  k=v'', js ''[s]''] ! n))
         \<and> snd (parseLines ascii_runtime default_parser [js ''; note'', [], js ''  k=v'', js ''[s]'']) =
             Some (MissingSectionHeaderError (p_file default_parser) n
                    (strip_leading ([js ''; note'', [], js ''  k=v'', js ''[s]''] ! n))))"
proof -
  let ?L = "[js ''; note'', [], js ''  k=v'', js ''[s]'']"
  have h0: "\<not> is_header (strip_leading (?L ! 0))"
    by (simp add: is_header_def blank_or_comment_def regex_defs js_def)
  have h1: "\<not> is_header (strip_leading (?L ! 1))"
    by (simp add: is_header_def blank_or_comment_def regex_defs js_def)
  have h2: "\<not> blank_or_comment (strip_leading (?L ! 2))"
    by (simp add: blank_or_comment_def regex_defs js_def)
  have h3: "\<not> is_header (strip_leading (?L ! 2))"
    by (simp add: is_header_def blank_or_comment_def regex_defs js_def)
  have len: "(2::nat) < length ?L" by simp
  have before: "\<forall>j<2. \<not> is_header (strip_leading (?L ! j))"
    using h0 h1 by (auto simp: less_Suc_eq numeral_2_eq_2)
  from missing_section_header [OF len before h2 h3, of ascii_runtime default_parser]
  obtain n where "n \<le> 2" "\<not> blank_or_comment (strip_leading (?L ! n))"
    "snd (parseLines ascii_runtime default_parser ?L) =
       Some (MissingSectionHeaderError (p_file default_parser) n (strip_leading (?L ! n)))"
    by blast
  with len h0 h1 h2 h3 show ?thesis by blast
qed

text \<open>
  C3. A line before any header that holds a bracketed token is not refused: \<open>k=[x]\<close> as
  the first line is neither blank, nor a comment, nor a line of the form \<open>[name]\<close>, and
  \<open>parseLines\<close> raises no \<open>MissingSectionHeaderError\<close>. The unanchored \<open>SECTION\<close> finds
  \<open>[x]\<close> in it, the loop opens a section \<open>x\<close>, and the read ends without an error.
\<close>

theorem bracketed_token_before_header_accepted:
  "\<not> blank_or_comment (strip_leading (js ''k=[x]''))
   \<and> bracketed (js ''k=[x]'')
   \<and> read rt default_parser f (js ''k=[x]'') =
     (\<lparr>parser = default_parser\<lparr>p_file := Some f, p_sections := [(js ''x'', [])]\<rparr>,
        curSec = Own (js ''x''), calls = []\<rparr>, None)"
  by (simp add: regex_defs parse_defs blank_or_comment_def)

lemma forEach_append:
  "forEach rt st k (xs @ ys) =
     (case forEach rt st k xs of
        (st', None) \<Rightarrow> forEach rt st' (k + length xs) ys
      | (st', Some e) \<Rightarrow> (st', Some e))"
  by (induction xs arbitrary: st k) (auto split: sum.splits)

lemma parse_line_config:
  "parse_line rt st n line = Inr st' \<Longrightarrow>
     p_file (parser st') = p_file (parser st) \<and> p_transform (parser st') = p_transform (parser st)
     \<and> p_onInvalidLine (parser st') = p_onInvalidLine (parser st)"
  by (auto simp: parse_line_def invalid_def new_section_def curSec_put_def
           split: if_splits option.splits current_section.splits)

lemma forEach_config:
  "forEach rt st k ls = (st', r) \<Longrightarrow>
     p_file (parser st') = p_file (parser st) \<and> p_transform (parser st') = p_transform (parser st)
     \<and> p_onInvalidLine (parser st') = p_onInvalidLine (parser st)"
proof (induction ls arbitrary: st k)
  case Nil
  then show ?case by simp
next
  case (Cons l ls)
  show ?case
  proof (cases "parse_line rt st k l")
    case (Inl e)
    with Cons.prems show ?thesis by simp
  next
    case (Inr st1)
    with Cons.prems have "forEach rt st1 (Suc k) ls = (st', r)" by simp
    from Cons.IH [OF this] parse_line_config [OF Inr] show ?thesis by simp
  qed
qed

lemma parse_line_curSec:
  "parse_line rt st n line = Inr st' \<Longrightarrow> curSec st \<noteq> NoSection \<or> is_header line \<Longrightarrow>
   curSec st' \<noteq> NoSection"
  by (auto simp: parse_line_def invalid_def new_section_def curSec_put_def is_header_def
                 blank_or_comment_def
           split: if_splits option.splits current_section.splits)

lemma forEach_curSec:
  "forEach rt st k ls = (st', None) \<Longrightarrow> curSec st \<noteq> NoSection \<or> (\<exists>h\<in>set ls. is_header h) \<Longrightarrow>
   curSec st' \<noteq> NoSection"
proof (induction ls arbitrary: st k)
  case Nil
  then show ?case by simp
next
  case (Cons l ls)
  show ?case
  proof (cases "parse_line rt st k l")
    case (Inl e)
    with Cons.prems show ?thesis by simp
  next
    case (Inr st1)
    with Cons.prems have run: "forEach rt st1 (Suc k) ls = (st', None)" by simp
    have "curSec st1 \<noteq> NoSection \<or> (\<exists>h\<in>set ls. is_header h)"
      using Cons.prems(2) parse_line_curSec [OF Inr] by auto
    from Cons.IH [OF run this] show ?thesis .
  qed
qed

lemma invalid_shape:
  assumes "\<not> blank_or_comment line" and "\<not> bracketed line" and "\<not> key_value_shape line"
  shows "is_invalid line"
proof -
  have "exec SECTION line = None"
    using assms(2) exec_SECTION_bracketed [of line] by simp
  then show ?thesis
    using assms(1,3) by (simp add: is_invalid_def is_header_def is_key_value_def key_value_shape_def)
qed

text \<open>
  C4. A line that is neither blank nor a comment, holds no bracketed token \<open>[...]\<close> (so
  it is no header, and \<open>SECTION\<close> finds none in it) and fails the key/value test, after
  lines that were accepted and hold a header. With a function as \<open>onInvalidLine\<close> the
  callback gets \<open>{file, lineNumber, line}\<close> and the loop goes on with the next line; else
  the loop ends at once with \<open>ParseError\<close>, which carries \<open>file || ''\<close>, the same index
  and the same text: the file of the error is the empty string where \<open>file\<close> is the
  descriptor 0.
\<close>

theorem invalid_line_policy:
  assumes "parseLines rt cp pre = (st, None)"
    and "\<exists>h\<in>set pre. is_header (strip_leading h)"
    and "\<not> blank_or_comment (strip_leading l)"
    and "\<not> bracketed (strip_leading l)"
    and "\<not> key_value_shape (strip_leading l)"
  shows "parseLines rt cp (pre @ l # post) =
     (if p_onInvalidLine cp = Some Function
      then forEach rt
             (st\<lparr>calls := calls st @
                [\<lparr>il_file = p_file cp, il_lineNumber = length pre, il_line = strip_leading l\<rparr>]\<rparr>)
             (Suc (length pre)) (map strip_leading post)
      else (st, Some (ParseError (file_or_empty (p_file cp)) (length pre) (strip_leading l))))"
proof -
  let ?st0 = "\<lparr>parser = cp, curSec = NoSection, calls = []\<rparr>"
  have run: "forEach rt ?st0 0 (map strip_leading pre) = (st, None)"
    using assms(1) by (simp add: parseLines_def)
  have cfg: "p_file (parser st) = p_file cp" "p_onInvalidLine (parser st) = p_onInvalidLine cp"
    using forEach_config [OF run] by simp_all
  have "curSec st \<noteq> NoSection"
    using forEach_curSec [OF run] assms(2) by auto
  moreover have "is_invalid (strip_leading l)"
    using assms(3,4,5) by (rule invalid_shape)
  ultimately have step:
    "parse_line rt st (length pre) (strip_leading l) = invalid st (length pre) (strip_leading l)"
    by (simp add: parse_line_invalid)
  have "parseLines rt cp (pre @ l # post) =
          forEach rt st (length pre) (strip_leading l # map strip_leading post)"
    using run by (simp add: parseLines_def forEach_append)
  then show ?thesis
    using step cfg by (simp add: invalid_def)
qed

theorem invalid_line_policy_witness:
  "parseLines ascii_runtime (default_parser\<lparr>p_onInvalidLine := Some Function\<rparr>) [js ''[s]''] =
     (\<lparr>parser = default_parser\<lparr>p_onInvalidLine := Some Function, p_sections := [(js ''s'', [])]\<rparr>,
        curSec = Own (js ''s''), calls = []\<rparr>, None)
   \<and> is_header (strip_leading (js ''[s]''))
   \<and> \<not> blank_or_comment (strip_leading (js '' oops''))
   \<and> \<not> bracketed (strip_leading (js '' oops''))
   \<and> \<not> key_value_shape (strip_leading (js '' oops''))
   \<and> parseLines ascii_runtime (default_parser\<lparr>p_onInvalidLine := Some Function\<rparr>)
         ([js ''[s]''] @ js '' oops'' # [js ''k=v'']) =
       (\<lparr>parser = default_parser\<lparr>p_onInvalidLine := Some Function,
                                   p_sections := [(js ''s'', [(js ''k'', js ''v'')])]\<rparr>,
          curSec = Own (js ''s''),
          calls = [\<lparr>il_file = None, il_lineNumber = 1, il_line = js ''oops''\<rparr>]\<rparr>, None)"
proof -
  let ?cp = "default_parser\<lparr>p_onInvalidLine := Some Function\<rparr>"
  let ?st = "\<lparr>parser = ?cp\<lparr>p_sections := [(js ''s'', [])]\<rparr>, curSec = Own (js ''s''), calls = []\<rparr>"
  have run: "parseLines ascii_runtime ?cp [js ''[s]''] = (?st, None)"
    by (simp add: regex_defs parse_defs)
  have hdr: "is_header (strip_leading (js ''[s]''))"
    by (simp add: is_header_def blank_or_comment_def regex_defs js_def)
  then have sec: "\<exists>h\<in>set [js ''[s]'']. is_header (strip_leading h)"
    by simp
  have b1: "\<not> blank_or_comment (strip_leading (js '' oops''))"
    by (simp add: blank_or_comment_def regex_defs js_def)
  have b2: "\<not> bracketed (strip_leading (js '' oops''))"
    by (simp add: regex_defs js_def)
  have b3: "\<not> key_value_shape (strip_leading (js '' oops''))"
    by (simp add: key_value_shape_def regex_defs js_def)
  have "parseLines ascii_runtime ?cp ([js ''[s]''] @ js '' oops'' # [js ''k=v'']) =
          forEach ascii_runtime
            (?st\<lparr>calls := calls ?st @
               [\<lparr>il_file = p_file ?cp, il_lineNumber = length [js ''[s]''],
                 il_line = strip_leading (js '' oops'')\<rparr>]\<rparr>)
            (Suc (length [js ''[s]''])) (map strip_leading [js ''k=v''])"
    using invalid_line_policy [OF run sec b1 b2 b3, of "[js ''k=v'']"]
    by (simp add: default_parser_def ConfigParser_def)
  also have "\<dots> = (\<lparr>parser = ?cp\<lparr>p_sections := [(js ''s'', [(js ''k'', js ''v'')])]\<rparr>,
                      curSec = Own (js ''s''),
                      calls = [\<lparr>il_file = None, il_lineNumber = 1, il_line = js ''oops''\<rparr>]\<rparr>, None)"
    by (simp add: regex_defs parse_defs)
  finally show ?thesis
    using run hdr b1 b2 b3 by simp
qed

theorem parse_error_file_counterexample:
  "snd (read ascii_runtime default_parser (FileDescriptor 0) (js ''[s]'' @ [0x0A] @ js ''oops'')) =
     Some (ParseError (FileName []) 1 (js ''oops''))
   \<and> snd (read ascii_runtime default_parser (FileDescriptor 0) (js ''[s]'' @ [0x0A] @ js ''oops'')) \<noteq>
     Some (ParseError (FileDescriptor 0) 1 (js ''oops''))"
  by (simp add: regex_defs parse_defs)

section \<open>The case transform\<close>

lemma set_update_cases:
  "(n, s) \<in> set (AList.update k v al) \<Longrightarrow> (n, s) \<in> set al \<or> (n, s) = (k, v)"
  by (induction al) (auto split: if_splits)

lemma set_map_entry_cases:
  "(n, s) \<in> set (AList.map_entry k f al) \<Longrightarrow>
   (n, s) \<in> set al \<or> (n = k \<and> (\<exists>v. map_of al k = Some v \<and> s = f v))"
  by (induction al) (auto split: if_splits)

lemma map_of_map_entry_same:
  "map_of (AList.map_entry k f al) k = map_option f (map_of al k)"
  by (induction al) auto

lemma map_of_map_entry_other:
  "n \<noteq> k \<Longrightarrow> map_of (AList.map_entry k f al) n = map_of al n"
  by (induction al) auto

lemma set_put_key_cases:
  "(a, b) \<in> set (put_key sec key v) \<Longrightarrow> (a, b) \<in> set sec \<or> (a, b) = (key, v)"
  by (auto simp: put_key_def dest: set_update_cases split: if_splits)

lemma parse_line_inv:
  assumes "store_inv rt tr L S0 st" and "line \<in> L" and "p_transform (parser st) = tr"
    and "parse_line rt st n line = Inr st'"
  shows "store_inv rt tr L S0 st'"
proof (cases "line = [] \<or> exec COMMENT line \<noteq> None")
  case True
  with assms show ?thesis by (auto simp: parse_line_def)
next
  case False
  note nb = False
  show ?thesis
  proof (cases "exec SECTION line")
    case (Some res)
    let ?name = "transformKey rt tr (group 1 res)"
    have st': "st' = new_section st ?name"
      using assms(3,4) nb Some by (simp add: parse_line_def)
    have e: "parsed_entry rt tr L (?name, [])"
      using assms(2) Some by (auto simp: parsed_entry_def from_header_def)
    show ?thesis
    proof (cases "?name = proto_name")
      case True
      with st' assms(1) show ?thesis
        by (auto simp: store_inv_def new_section_def)
    next
      case False
      have "\<forall>e\<in>set (AList.update ?name [] (p_sections (parser st))). e \<in> set S0 \<or> parsed_entry rt tr L e"
        using assms(1) e by (auto simp: store_inv_def dest!: set_update_cases)
      moreover have "map_of (AList.update ?name [] (p_sections (parser st))) ?name = Some []"
        by (simp add: update_conv')
      ultimately show ?thesis
        using st' False e by (auto simp: store_inv_def new_section_def)
    qed
  next
    case None
    show ?thesis
    proof (cases "curSec st = NoSection")
      case True
      with assms(4) nb None show ?thesis by (simp add: parse_line_def)
    next
      case False
      note cur = False
      show ?thesis
      proof (cases "\<exists>res. exec KEY line = Some res \<and> group 1 res \<noteq> [] \<and> take 1 line \<noteq> js ''=''")
        case True
        then obtain res where res: "exec KEY line = Some res" "group 1 res \<noteq> []"
            "take 1 line \<noteq> js ''=''"
          by blast
        let ?key = "transformKey rt tr (group 1 res)"
        let ?v = "group 2 res"
        have st': "st' = curSec_put st ?key ?v"
          using assms(3,4) nb None cur res by (simp add: parse_line_def)
        have kv: "from_key_value rt tr L (?key, ?v)"
          using assms(2) res(1) by (auto simp: from_key_value_def)
        show ?thesis
        proof (cases "curSec st")
          case NoSection
          with cur show ?thesis by simp
        next
          case Proto
          with st' assms(1) show ?thesis
            by (auto simp: store_inv_def curSec_put_def)
        next
          case (Own m)
          then obtain s where s: "map_of (p_sections (parser st)) m = Some s"
              "parsed_entry rt tr L (m, s)"
            using assms(1) by (auto simp: store_inv_def)
          have new: "parsed_entry rt tr L (m, put_key s ?key ?v)"
            using s(2) kv by (auto simp: parsed_entry_def dest!: set_put_key_cases)
          let ?S = "AList.map_entry m (\<lambda>sec. put_key sec ?key ?v) (p_sections (parser st))"
          have "\<forall>e\<in>set ?S. e \<in> set S0 \<or> parsed_entry rt tr L e"
          proof
            fix e assume "e \<in> set ?S"
            then have "(fst e, snd e) \<in> set ?S" by simp
            from set_map_entry_cases [OF this]
            show "e \<in> set S0 \<or> parsed_entry rt tr L e"
            proof
              assume "(fst e, snd e) \<in> set (p_sections (parser st))"
              with assms(1) show ?thesis by (auto simp: store_inv_def)
            next
              assume "fst e = m \<and> (\<exists>v. map_of (p_sections (parser st)) m = Some v
                        \<and> snd e = put_key v ?key ?v)"
              with s(1) have "e = (m, put_key s ?key ?v)" by (cases e) auto
              with new show ?thesis by simp
            qed
          qed
          moreover have "map_of ?S m = Some (put_key s ?key ?v)"
            using s(1) by (simp add: map_of_map_entry_same)
          ultimately show ?thesis
            using st' Own new by (auto simp: store_inv_def curSec_put_def)
        qed
      next
        case False
        then have "parse_line rt st n line = invalid st n line"
          using nb None cur by (auto simp: parse_line_def split: option.splits)
        with assms(1,4) show ?thesis
          by (auto simp: invalid_def store_inv_def split: if_splits)
      qed
    qed
  qed
qed


lemma forEach_inv:
  assumes "store_inv rt tr L S0 st" and "set ls \<subseteq> L" and "p_transform (parser st) = tr"
  shows "store_inv rt tr L S0 (fst (forEach rt st k ls))"
  using assms
proof (induction ls arbitrary: st k)
  case Nil
  then show ?case by simp
next
  case (Cons l ls)
  show ?case
  proof (cases "parse_line rt st k l")
    case (Inl e)
    with Cons.prems show ?thesis by simp
  next
    case (Inr st1)
    have "store_inv rt tr L S0 st1"
      using parse_line_inv [OF Cons.prems(1) _ Cons.prems(3) Inr] Cons.prems(2) by simp
    moreover have "p_transform (parser st1) = tr"
      using Inr Cons.prems(3)
      by (auto simp: parse_line_def invalid_def new_section_def curSec_put_def
               split: if_splits option.splits current_section.splits)
    ultimately have "store_inv rt tr L S0 (fst (forEach rt st1 (Suc k) ls))"
      using Cons.IH Cons.prems(2) by simp
    with Inr show ?thesis by simp
  qed
qed

text \<open>
  C6. After \<open>parseLines\<close>, whether it ended with an error or not, every section of the
  store is one the parser held before, or its name is the transform of the name a
  header line gave, and each of its keys is the transform of the key a key/value line
  gave, stored with the value that line gave, unchanged. The transform is the identity
  for \<open>none\<close> (the value of an unset option), \<open>toLowerCase\<close> for \<open>lower\<close> and
  \<open>toUpperCase\<close> for \<open>upper\<close>.
\<close>

theorem case_transform_uniform:
  "(\<forall>(name, sec)\<in>set (p_sections (parser (fst (parseLines rt cp lines)))).
      (name, sec) \<in> set (p_sections cp)
      \<or> ((\<exists>l\<in>set lines. \<exists>res. exec SECTION (strip_leading l) = Some res
                \<and> name = transformKey rt (p_transform cp) (group 1 res))
          \<and> (\<forall>(key, v)\<in>set sec. \<exists>l\<in>set lines. \<exists>res. exec KEY (strip_leading l) = Some res
                \<and> key = transformKey rt (p_transform cp) (group 1 res) \<and> v = group 2 res)))
   \<and> transformKey rt (js ''none'') x = x
   \<and> transformKey rt (js ''lower'') x = toLowerCase rt x
   \<and> transformKey rt (js ''upper'') x = toUpperCase rt x
   \<and> p_transform (ConfigParser \<lparr>opt_transform = None, opt_onInvalidLine = cb\<rparr>) = js ''none''"
proof -
  let ?L = "set (map strip_leading lines)"
  let ?st0 = "\<lparr>parser = cp, curSec = NoSection, calls = []\<rparr>"
  have "store_inv rt (p_transform cp) ?L (p_sections cp) ?st0"
    by (simp add: store_inv_def)
  then have "store_inv rt (p_transform cp) ?L (p_sections cp)
               (fst (forEach rt ?st0 0 (map strip_leading lines)))"
    by (intro forEach_inv) simp_all
  then have "\<forall>e\<in>set (p_sections (parser (fst (parseLines rt cp lines)))).
               e \<in> set (p_sections cp) \<or> parsed_entry rt (p_transform cp) ?L e"
    by (simp add: store_inv_def parseLines_def)
  then have "\<forall>(name, sec)\<in>set (p_sections (parser (fst (parseLines rt cp lines)))).
      (name, sec) \<in> set (p_sections cp)
      \<or> ((\<exists>l\<in>set lines. \<exists>res. exec SECTION (strip_leading l) = Some res
                \<and> name = transformKey rt (p_transform cp) (group 1 res))
          \<and> (\<forall>(key, v)\<in>set sec. \<exists>l\<in>set lines. \<exists>res. exec KEY (strip_leading l) = Some res
                \<and> key = transformKey rt (p_transform cp) (group 1 res) \<and> v = group 2 res))"
    by (fastforce simp: parsed_entry_def from_header_def from_key_value_def)
  moreover have "transformKey rt (js ''none'') x = x"
    and "transformKey rt (js ''lower'') x = toLowerCase rt x"
    and "transformKey rt (js ''upper'') x = toUpperCase rt x"
    by (simp_all add: transformKey_def js_def)
  moreover have "p_transform (ConfigParser \<lparr>opt_transform = None, opt_onInvalidLine = cb\<rparr>) = js ''none''"
    by (simp add: ConfigParser_def)
  ultimately show ?thesis by blast
qed

theorem case_transform_uniform_witness:
  "p_sections (parser (fst (parseLines ascii_runtime (default_parser\<lparr>p_transform := js ''upper''\<rparr>)
      [js ''[Db]'', js ''Host=LocalHost'']))) = [(js ''DB'', [(js ''HOST'', js ''LocalHost'')])]
   \<and> (\<exists>l\<in>set [js ''[Db]'', js ''Host=LocalHost'']. \<exists>res. exec SECTION (strip_leading l) = Some res
         \<and> js ''DB'' = toUpperCase ascii_runtime (group 1 res))
   \<and> (\<exists>l\<in>set [js ''[Db]'', js ''Host=LocalHost'']. \<exists>res. exec KEY (strip_leading l) = Some res
         \<and> js ''HOST'' = toUpperCase ascii_runtime (group 1 res) \<and> js ''LocalHost'' = group 2 res)"
proof -
  let ?cp = "default_parser\<lparr>p_transform := js ''upper''\<rparr>"
  let ?L = "[js ''[Db]'', js ''Host=LocalHost'']"
  have store: "p_sections (parser (fst (parseLines ascii_runtime ?cp ?L))) =
                 [(js ''DB'', [(js ''HOST'', js ''LocalHost'')])]"
    by (simp add: regex_defs parse_defs ascii_runtime_def ascii_upper_def)
  have up: "transformKey ascii_runtime (p_transform ?cp) x = toUpperCase ascii_runtime x" for x
    using case_transform_uniform [of ascii_runtime ?cp ?L x] by simp
  have "\<forall>(name, sec)\<in>set (p_sections (parser (fst (parseLines ascii_runtime ?cp ?L)))).
      (name, sec) \<in> set (p_sections ?cp)
      \<or> ((\<exists>l\<in>set ?L. \<exists>res. exec SECTION (strip_leading l) = Some res
                \<and> name = transformKey ascii_runtime (p_transform ?cp) (group 1 res))
          \<and> (\<forall>(key, v)\<in>set sec. \<exists>l\<in>set ?L. \<exists>res. exec KEY (strip_leading l) = Some res
                \<and> key = transformKey ascii_runtime (p_transform ?cp) (group 1 res) \<and> v = group 2 res))"
    using case_transform_uniform [of ascii_runtime ?cp ?L] by blast
  then have "(\<exists>l\<in>set ?L. \<exists>res. exec SECTION (strip_leading l) = Some res
                \<and> js ''DB'' = toUpperCase ascii_runtime (group 1 res))
          \<and> (\<exists>l\<in>set ?L. \<exists>res. exec KEY (strip_leading l) = Some res
                \<and> js ''HOST'' = toUpperCase ascii_runtime (group 1 res) \<and> js ''LocalHost'' = group 2 res)"
    unfolding store up by (simp add: default_parser_def ConfigParser_def)
  with store show ?thesis by blast
qed

section \<open>Accessors on a section that is not in the store\<close>

lemma sections_hasOwnProperty_eq:
  "sections_hasOwnProperty cp name =
     (if hasOwnProperty_hidden cp then Inl TypeError else Inr (own (p_sections cp) name))"
  by (simp add: sections_hasOwnProperty_def hasOwnProperty_hidden_def split: option.splits)

lemma set_value_missing_section:
  "\<not> own (p_sections cp) sect \<Longrightarrow>
   set_value cp sect key v = (if hasOwnProperty_hidden cp then Inl TypeError else Inr cp)"
  by (simp add: set_value_def sections_hasOwnProperty_eq)

lemma get_missing_section:
  "\<not> own (p_sections cp) sect \<Longrightarrow>
   get cp sect key raw = (if hasOwnProperty_hidden cp then Inl TypeError else Inr Undefined)"
  by (simp add: get_def sections_hasOwnProperty_eq)

lemma getInt_missing_section:
  "\<not> own (p_sections cp) sect \<Longrightarrow>
   getInt cp sect key radix = (if hasOwnProperty_hidden cp then Inl TypeError else Inr None)"
  by (simp add: getInt_def sections_hasOwnProperty_eq)

lemma keys_missing_section:
  "\<not> own (p_sections cp) sect \<Longrightarrow> p_sections_proto cp = None \<Longrightarrow>
   sect \<notin> set object_prototype_names \<Longrightarrow> keys cp sect = Inl (NoSectionError sect)"
proof -
  assume "\<not> own (p_sections cp) sect"
  then have "map_of (p_sections cp) sect = None"
    by (simp add: own_def map_of_eq_None_iff)
  moreover assume "p_sections_proto cp = None" and "sect \<notin> set object_prototype_names"
  ultimately show ?thesis
    by (simp add: keys_def sections_get_def)
qed

text \<open>
  \<open>parseInt\<close> of a string that starts with a letter or a bracket is \<open>NaN\<close> in radix
  10: the three strings \<open>ToString\<close> gives for a key that is not in the section.
\<close>

lemma parseInt_no_digit:
  "\<not> is_space c \<Longrightarrow> c \<noteq> 0x2B \<Longrightarrow> c \<noteq> 0x2D \<Longrightarrow> \<not> is_digit_in 10 c \<Longrightarrow>
   parseInt (c # cs) 10 = NaN"
  by (simp add: parseInt_def Let_def js_def)

lemma ToString_absent_key:
  "map_of sec key = None \<Longrightarrow> \<exists>c cs. ToString (section_get sec key) = c # cs \<and>
     \<not> is_space c \<and> c \<noteq> 0x2B \<and> c \<noteq> 0x2D \<and> \<not> is_digit_in 10 c"
  by (simp add: section_get_def js_def is_space_def is_digit_in_def digit_of_def)

lemma getInt_absent_key:
  assumes "own (p_sections cp) sect" and "\<not> hasOwnProperty_hidden cp"
    and "map_of (section_of cp sect) key = None"
  shows "getInt cp sect key None = Inr (Some NaN)"
proof -
  obtain c cs where "ToString (section_get (section_of cp sect) key) = c # cs"
    and "\<not> is_space c" "c \<noteq> 0x2B" "c \<noteq> 0x2D" "\<not> is_digit_in 10 c"
    using ToString_absent_key [OF assms(3)] by blast
  then have "parseInt (ToString (section_get (section_of cp sect) key)) 10 = NaN"
    by (simp add: parseInt_no_digit)
  with assms(1,2) show ?thesis
    by (simp add: getInt_def sections_hasOwnProperty_eq)
qed

text \<open>
  C9. \<open>set(section, key, value)\<close> on a section that is not in the store never changes
  the store (\<open>set_value_missing_section\<close>), but it does not always return: after
  \<open>[hasOwnProperty]\<close> has been parsed, the guard \<open>this._sections.hasOwnProperty(section)\<close>
  calls the section object of that name and raises \<open>TypeError\<close>.
\<close>

theorem set_missing_section_raises:
  "\<not> own (p_sections (parser (fst (read rt default_parser f (js ''[hasOwnProperty]'')))))
        (js ''other'')
   \<and> set_value (parser (fst (read rt default_parser f (js ''[hasOwnProperty]''))))
        (js ''other'') (js ''k'') (js ''v'') = Inl TypeError"
  by (simp add: regex_defs parse_defs set_value_def store_defs)

text \<open>
  C10. \<open>get(section, key, raw)\<close> on a section that is not in the store is \<open>undefined\<close>
  in both modes unless the guard raises (\<open>get_missing_section\<close>): after
  \<open>[hasOwnProperty]\<close> has been parsed, both modes raise \<open>TypeError\<close>.
\<close>

theorem get_missing_section_raises:
  "\<not> own (p_sections (parser (fst (read rt default_parser f (js ''[hasOwnProperty]'')))))
        (js ''other'')
   \<and> get (parser (fst (read rt default_parser f (js ''[hasOwnProperty]''))))
        (js ''other'') (js ''k'') True = Inl TypeError
   \<and> get (parser (fst (read rt default_parser f (js ''[hasOwnProperty]''))))
        (js ''other'') (js ''k'') False = Inl TypeError"
  by (simp add: regex_defs parse_defs get_def store_defs)

text \<open>
  C7. \<open>getInt(section, key)\<close> is \<open>NaN\<close> for a key that is not in an existing section
  (\<open>getInt_absent_key\<close>) and \<open>undefined\<close> for a section that is not in the store
  (\<open>getInt_missing_section\<close>), unless the guard raises: after \<open>[hasOwnProperty]\<close> has
  been parsed, both cases raise \<open>TypeError\<close>.
\<close>

theorem getInt_raises:
  "own (p_sections (parser (fst (read rt default_parser f (js ''[hasOwnProperty]'')))))
        (js ''hasOwnProperty'')
   \<and> getInt (parser (fst (read rt default_parser f (js ''[hasOwnProperty]''))))
        (js ''hasOwnProperty'') (js ''missing'') None = Inl TypeError
   \<and> getInt (parser (fst (read rt default_parser f (js ''[hasOwnProperty]''))))
        (js ''missing'') (js ''k'') None = Inl TypeError"
  by (simp add: regex_defs parse_defs getInt_def store_defs)

section \<open>Interpolation of cyclic and dangling references\<close>

lemma expand_error: "expand cp sect chain ts = Inl e \<Longrightarrow> e = InterpolationError"
  by (induction cp sect chain ts arbitrary: e rule: expand.induct)
     (auto split: sum.splits if_splits option.splits)

lemma expand_success:
  "expand cp sect chain ts = Inr v \<Longrightarrow> Ref k \<in> set ts \<Longrightarrow> (k, x) \<in> (references cp sect)\<^sup>* \<Longrightarrow>
   x \<notin> set chain \<and> lookup_ref cp sect x \<noteq> None"
proof (induction cp sect chain ts arbitrary: v k x rule: expand.induct)
  case (1 cp sect chain)
  then show ?case by simp
next
  case (2 cp sect chain t ts)
  from "2.prems"(1) obtain r where "expand cp sect chain ts = Inr r"
    by (auto split: sum.splits)
  with "2.IH" "2.prems"(2,3) show ?case by auto
next
  case (3 cp sect chain k0 ts)
  from "3.prems"(1) obtain raw v1 r where ok: "k0 \<notin> set chain" "lookup_ref cp sect k0 = Some raw"
      "expand cp sect (k0 # chain) (scan Plain raw) = Inr v1" "expand cp sect chain ts = Inr r"
    by (auto split: sum.splits if_splits option.splits)
  show ?case
  proof (cases "k = k0")
    case True
    from "3.prems"(3) show ?thesis
    proof (cases rule: converse_rtranclE)
      case base
      with True ok show ?thesis by simp
    next
      case (step y)
      with True ok(2) have "Ref y \<in> set (scan Plain raw)"
        by (auto simp: references_def)
      from "3.IH"(1) [OF ok(1,2,3) this step(2)] show ?thesis by simp
    qed
  next
    case False
    with "3.prems"(2) have "Ref k \<in> set ts" by simp
    from "3.IH"(2) [OF ok(1,2,3,4) this "3.prems"(3)] show ?thesis .
  qed
qed

text \<open>
  The resolver itself: in a section that the guard of \<open>get\<close> finds, for a key of that
  section whose references lead back to itself, or lead to a key that is in neither the
  section nor \<open>DEFAULT\<close>, the non-raw \<open>get\<close>, a total function, returns
  \<open>InterpolationError\<close>.
\<close>

lemma cyclic_reference_fails:
  assumes "own (p_sections cp) sect" and "\<not> hasOwnProperty_hidden cp"
    and "map_of (section_of cp sect) key = Some raw"
    and "(key, key) \<in> (references cp sect)\<^sup>+
         \<or> (\<exists>k'. (key, k') \<in> (references cp sect)\<^sup>+ \<and> lookup_ref cp sect k' = None)"
  shows "get cp sect key False = Inl InterpolationError"
proof -
  have look: "lookup_ref cp sect key = Some raw"
    using assms(3) by (simp add: lookup_ref_def)
  have "expand cp sect [key] (scan Plain raw) \<noteq> Inr v" for v
  proof
    assume run: "expand cp sect [key] (scan Plain raw) = Inr v"
    from assms(4) obtain x where x: "(key, x) \<in> (references cp sect)\<^sup>+"
        "x = key \<or> lookup_ref cp sect x = None"
      by auto
    from x(1) obtain y where y: "(key, y) \<in> references cp sect" "(y, x) \<in> (references cp sect)\<^sup>*"
      by (auto dest: tranclD)
    from y(1) look have "Ref y \<in> set (scan Plain raw)"
      by (auto simp: references_def)
    from expand_success [OF run this y(2)] x(2) show False by auto
  qed
  then obtain e where "expand cp sect [key] (scan Plain raw) = Inl e"
    by (cases "expand cp sect [key] (scan Plain raw)") auto
  moreover from this have "e = InterpolationError" by (rule expand_error)
  ultimately show ?thesis
    using assms(1,2,3) by (simp add: get_def sections_hasOwnProperty_eq interpolate_def)
qed

lemma cyclic_reference_fails_example:
  "parser (fst (read ascii_runtime default_parser (FileName (js ''app.ini''))
      (js ''[s]'' @ [0x0A] @ js ''a=%(b)s'' @ [0x0A] @ js ''b=%(a)s''))) =
     default_parser\<lparr>p_file := Some (FileName (js ''app.ini'')),
        p_sections := [(js ''s'', [(js ''a'', js ''%(b)s''), (js ''b'', js ''%(a)s'')])]\<rparr>
   \<and> get (parser (fst (read ascii_runtime default_parser (FileName (js ''app.ini''))
      (js ''[s]'' @ [0x0A] @ js ''a=%(b)s'' @ [0x0A] @ js ''b=%(a)s'')))) (js ''s'') (js ''a'') False =
     Inl InterpolationError"
proof -
  let ?cp = "default_parser\<lparr>p_file := Some (FileName (js ''app.ini'')),
        p_sections := [(js ''s'', [(js ''a'', js ''%(b)s''), (js ''b'', js ''%(a)s'')])]\<rparr>"
  have parsed: "parser (fst (read ascii_runtime default_parser (FileName (js ''app.ini''))
      (js ''[s]'' @ [0x0A] @ js ''a=%(b)s'' @ [0x0A] @ js ''b=%(a)s''))) = ?cp"
    by (simp add: regex_defs parse_defs)
  have sec: "own (p_sections ?cp) (js ''s'')"
    by (simp add: own_def)
  have meth: "\<not> hasOwnProperty_hidden ?cp"
    by (simp add: hasOwnProperty_hidden_def own_def hasOwnProperty_name_def js_def
          default_parser_def ConfigParser_def)
  have raw: "map_of (section_of ?cp (js ''s'')) (js ''a'') = Some (js ''%(b)s'')"
    by (simp add: section_of_def)
  have ab: "(js ''a'', js ''b'') \<in> references ?cp (js ''s'')"
    by (simp add: references_def lookup_ref_def section_of_def js_def)
  have ba: "(js ''b'', js ''a'') \<in> references ?cp (js ''s'')"
    by (simp add: references_def lookup_ref_def section_of_def js_def)
  from ab ba have "(js ''a'', js ''a'') \<in> (references ?cp (js ''s''))\<^sup>+"
    by (rule trancl.intros(2) [OF trancl.intros(1)])
  then have "get ?cp (js ''s'') (js ''a'') False = Inl InterpolationError"
    by (intro cyclic_reference_fails [OF sec meth raw]) simp
  with parsed show ?thesis by simp
qed

text \<open>
  C8. A store with a cycle on which the non-raw \<open>get\<close> does not fail with
  \<open>InterpolationError\<close>: after \<open>[hasOwnProperty]\<close> has been parsed beside the section
  \<open>s\<close> with \<open>a=%(b)s\<close> and \<open>b=%(a)s\<close>, the guard \<open>this._sections.hasOwnProperty(section)\<close>
  of \<open>get\<close> calls the section object of that name, and \<open>get('s', 'a')\<close> raises
  \<open>TypeError\<close> before the resolver is reached.
\<close>

theorem cyclic_get_raises_TypeError:
  "p_sections (parser (fst (read rt default_parser f
      (js ''[hasOwnProperty]'' @ [0x0A] @ js ''[s]'' @ [0x0A] @ js ''a=%(b)s'' @ [0x0A] @ js ''b=%(a)s'')))) =
     [(js ''hasOwnProperty'', []), (js ''s'', [(js ''a'', js ''%(b)s''), (js ''b'', js ''%(a)s'')])]
   \<and> get (parser (fst (read rt default_parser f
      (js ''[hasOwnProperty]'' @ [0x0A] @ js ''[s]'' @ [0x0A] @ js ''a=%(b)s'' @ [0x0A] @ js ''b=%(a)s''))))
      (js ''s'') (js ''a'') False = Inl TypeError"
  by (simp add: regex_defs parse_defs get_def store_defs)

section \<open>Serializing and parsing again\<close>

subsection \<open>What a key/value line and a split give\<close>

lemma space_not_delimiter: "is_space c \<Longrightarrow> \<not> is_delimiter c"
  by (auto simp: is_delimiter_def is_space_def)

lemma key_value_result:
  assumes "l \<noteq> []" and "\<not> is_space (hd l)" and "\<forall>c\<in>set l. \<not> is_line_terminator c"
    and "exec KEY l = Some res" and "group 1 res \<noteq> []"
  shows "\<exists>k ws d v. l = k @ ws @ d # v \<and> is_delimiter d \<and> (\<forall>c\<in>set ws. is_space c) \<and> k \<noteq> []
           \<and> hd k = hd l \<and> \<not> is_space (last k) \<and> (\<forall>c\<in>set k. \<not> is_delimiter c)
           \<and> group 1 res = k \<and> group 2 res = dropWhile is_space v"
proof -
  let ?r = "[Atom Space Star 0, Atom AnyChar LazyStar 1, Atom Space Star 0,
             Atom (OneOf [0x3D, 0x3A]) Once 0, Atom Space Star 0, Atom AnyChar Star 2]"
  have "search ?r l = Some res" using assms(4) by (simp add: KEY_def)
  from search_once_consumes [OF this, of "OneOf [0x3D, 0x3A]" 0]
  have "\<exists>c\<in>set l. is_delimiter c" by (auto simp: is_delimiter_def)
  then have "dropWhile (\<lambda>c. \<not> is_delimiter c) l \<noteq> []"
    by (auto simp: dropWhile_eq_Nil_conv)
  then obtain d v where dv: "dropWhile (\<lambda>c. \<not> is_delimiter c) l = d # v"
    by (cases "dropWhile (\<lambda>c. \<not> is_delimiter c) l") auto
  let ?p = "takeWhile (\<lambda>c. \<not> is_delimiter c) l"
  have l: "l = ?p @ d # v" using dv by (metis takeWhile_dropWhile_id)
  have d: "is_delimiter d" using dv hd_dropWhile [of "\<lambda>c. \<not> is_delimiter c" l] by auto
  have p_chars: "\<forall>c\<in>set ?p. \<not> is_delimiter c" using set_takeWhileD by fastforce
  have v_lt: "\<forall>c\<in>set v. \<not> is_line_terminator c"
    using assms(3) l by (metis Un_iff list.set_intros(2) set_append)
  have val: "takeWhile (\<lambda>c. \<not> is_line_terminator c) (dropWhile is_space v) = dropWhile is_space v"
    using v_lt set_dropWhileD [of _ is_space v]
    by (intro takeWhile_eq_all_conv [THEN iffD2]) blast
  show ?thesis
  proof (cases "?p = []")
    case True
    with l have l': "l = d # v" by simp
    have "rmatch [Atom AnyChar LazyStar 1, Atom Space Star 0, Atom (OneOf [0x3D, 0x3A]) Once 0,
                  Atom Space Star 0, Atom AnyChar Star 2] ([] @ [] @ d # v) =
            Some (map (Pair 1) [] @ map (Pair 0) [] @ (0, d) # map (Pair 0) (takeWhile is_space v)
              @ map (Pair 2) (takeWhile (\<lambda>c. \<not> is_line_terminator c) (dropWhile is_space v)))"
      using d by (intro rmatch_key_lazy) auto
    moreover have "\<not> is_space d" using d delimiter_not_space by blast
    ultimately have "exec KEY l = Some ((0, d) # map (Pair 0) (takeWhile is_space v)
              @ map (Pair 2) (takeWhile (\<lambda>c. \<not> is_line_terminator c) (dropWhile is_space v)))"
      by (simp add: KEY_def l')
    with assms(4) have "group 1 res = []"
      by (auto simp: group_def filter_empty_conv)
    with assms(5) show ?thesis by simp
  next
    case False
    let ?k = "rev (dropWhile is_space (rev ?p))"
    let ?ws = "rev (takeWhile is_space (rev ?p))"
    have split: "?p = ?k @ ?ws" by (rule trailing_space_split)
    have hd_p: "hd ?p = hd l" using False l by (metis hd_append2)
    then have "\<not> is_space (hd ?p)" using assms(2) by simp
    then have "\<not> (\<forall>c\<in>set (rev ?p). is_space c)"
      using False by (metis hd_in_set set_rev)
    then have "dropWhile is_space (rev ?p) \<noteq> []"
      by (simp add: dropWhile_eq_Nil_conv)
    then have k: "?k \<noteq> []" "\<not> is_space (last ?k)"
      using hd_dropWhile [of is_space "rev ?p"] by (simp_all add: last_rev)
    have hd_k: "hd ?k = hd l" using k(1) split hd_p by (metis hd_append2)
    have k_set: "set ?k \<subseteq> set ?p" using set_dropWhileD [of _ is_space "rev ?p"] by auto
    have set_p: "set ?p \<subseteq> set l" using set_takeWhileD by fastforce
    have k_chars: "\<forall>c\<in>set ?k. \<not> is_delimiter c \<and> \<not> is_line_terminator c"
      using k_set set_p p_chars assms(3) by blast
    have ws: "\<forall>c\<in>set ?ws. is_space c" using set_takeWhileD [of _ is_space "rev ?p"] by auto
    have hd_k': "\<not> is_space (hd ?k)" using hd_k assms(2) by simp
    from exec_KEY [OF k(1) hd_k' k(2) k_chars ws d, of v]
    obtain res' where res': "exec KEY (?k @ ?ws @ d # v) = Some res'" "group 1 res' = ?k"
        "group 2 res' = takeWhile (\<lambda>c. \<not> is_line_terminator c) (dropWhile is_space v)"
      by blast
    have l_eq: "l = ?k @ ?ws @ d # v"
      using split l by (metis append.assoc)
    have "res = res'" using res'(1) assms(4) l_eq by simp
    then have g: "group 1 res = ?k" "group 2 res = dropWhile is_space v"
      using res'(2,3) val by simp_all
    have no_delim: "\<forall>c\<in>set ?k. \<not> is_delimiter c" using k_chars by blast
    show ?thesis
      apply (rule exI [of _ ?k])
      apply (rule exI [of _ ?ws])
      apply (rule exI [of _ d])
      apply (rule exI [of _ v])
      using l_eq d ws k hd_k no_delim g apply (intro conjI)
              apply assumption+
      done
  qed
qed

lemma split_lines_clean: "l \<in> set (split_lines s) \<Longrightarrow> c \<in> set l \<Longrightarrow> \<not> is_line_boundary c"
proof (induction s arbitrary: l rule: split_lines.induct)
  case 1
  then show ?case by simp
next
  case (2 x xs)
  show ?case
  proof (cases "x = 0x0D \<and> xs \<noteq> [] \<and> hd xs = 0x0A")
    case True
    with 2 show ?thesis by auto
  next
    case False
    note not_crlf = False
    show ?thesis
    proof (cases "is_line_boundary x")
      case True
      with 2 not_crlf show ?thesis by auto
    next
      case False
      obtain l0 ls where sp: "split_lines xs = l0 # ls"
        by (cases "split_lines xs") (auto, cases xs, auto split: if_splits list.splits)
      with "2.prems" not_crlf False have "l = x # l0 \<or> l \<in> set ls" by auto
      then show ?thesis
      proof
        assume "l = x # l0"
        with "2.prems"(2) have "c = x \<or> c \<in> set l0" by auto
        then show ?thesis
          using False "2.IH"(3) [OF not_crlf False, of l0] sp not_crlf by auto
      next
        assume "l \<in> set ls"
        then show ?thesis
          using "2.IH"(3) [OF not_crlf False, of l] sp "2.prems"(2) by auto
      qed
    qed
  qed
qed

subsection \<open>The stores a parse builds\<close>

lemma set_map_entry_mem:
  "(n, s) \<in> set (AList.map_entry k f al) \<Longrightarrow>
   (n, s) \<in> set al \<or> (n = k \<and> (\<exists>v. (k, v) \<in> set al \<and> s = f v))"
  by (induction al) (auto split: if_splits)

lemma comment_first:
  "l \<noteq> [] \<Longrightarrow> exec COMMENT l = None \<Longrightarrow> hd l \<noteq> 0x3B \<and> hd l \<noteq> 0x23"
  by (cases l) (auto simp: COMMENT_def is_space_def split: if_splits)

lemma wf_section_put_key:
  "wf_section T sec \<Longrightarrow> wf_key_value T k v \<or> k = proto_name \<Longrightarrow> wf_section T (put_key sec k v)"
  by (auto simp: wf_section_def put_key_def distinct_update dest!: set_update_cases)

lemma wf_store_new_section:
  "wf_store T S \<Longrightarrow> wf_name T n \<Longrightarrow> wf_store T (AList.update n [] S)"
  by (auto simp: wf_store_def wf_section_def distinct_update dest!: set_update_cases)

lemma wf_store_map_entry:
  assumes "wf_store T S" and "wf_key_value T k v \<or> k = proto_name"
  shows "wf_store T (AList.map_entry m (\<lambda>sec. put_key sec k v) S)"
proof -
  have "distinct (map fst (AList.map_entry m (\<lambda>sec. put_key sec k v) S))"
    using assms(1) by (simp add: wf_store_def distinct_map_entry)
  moreover have "wf_name T (fst e) \<and> wf_section T (snd e)"
    if "e \<in> set (AList.map_entry m (\<lambda>sec. put_key sec k v) S)" for e
  proof -
    from that have "(fst e, snd e) \<in> set (AList.map_entry m (\<lambda>sec. put_key sec k v) S)" by simp
    from set_map_entry_mem [OF this] show ?thesis
    proof
      assume "(fst e, snd e) \<in> set S"
      with assms(1) show ?thesis by (auto simp: wf_store_def)
    next
      assume "fst e = m \<and> (\<exists>s. (m, s) \<in> set S \<and> snd e = put_key s k v)"
      then obtain s where s: "fst e = m" "(m, s) \<in> set S" "snd e = put_key s k v" by blast
      from s(2) assms(1) have "wf_name T m" "wf_section T s" by (auto simp: wf_store_def)
      with s(1,3) wf_section_put_key [OF _ assms(2)] show ?thesis by simp
    qed
  qed
  ultimately show ?thesis by (simp add: wf_store_def)
qed

lemma wf_key_value_line:
  assumes "l \<noteq> []" and "\<not> is_space (hd l)" and "\<forall>c\<in>set l. \<not> is_line_boundary c"
    and "exec COMMENT l = None" and "exec SECTION l = None"
    and "exec KEY l = Some res" and "group 1 res \<noteq> []"
    and "case_mapping T"
  shows "wf_key_value T (T (group 1 res)) (group 2 res) \<or> T (group 1 res) = proto_name"
proof -
  have lt: "\<forall>c\<in>set l. \<not> is_line_terminator c"
    using assms(3) boundary_terminator by blast
  from key_value_result [OF assms(1,2) lt assms(6,7)]
  obtain k ws d v where r: "l = k @ ws @ d # v" "is_delimiter d" "\<forall>c\<in>set ws. is_space c"
      "k \<noteq> []" "hd k = hd l" "\<not> is_space (last k)" "\<forall>c\<in>set k. \<not> is_delimiter c"
      "group 1 res = k" "group 2 res = dropWhile is_space v"
    by blast
  let ?v = "dropWhile is_space v"
  let ?sp = "takeWhile is_space v"
  have k_lb: "\<forall>c\<in>set k. \<not> is_line_boundary c" using assms(3) r(1) by auto
  have v_lb: "\<forall>c\<in>set ?v. \<not> is_line_boundary c"
    using assms(3) r(1) set_dropWhileD [of _ is_space v] by auto
  have v_hd: "?v = [] \<or> \<not> is_space (hd ?v)"
    using hd_dropWhile [of is_space v] by blast
  have first: "hd k \<noteq> 0x3B \<and> hd k \<noteq> 0x23"
    using comment_first [OF assms(1,4)] r(5) by simp
  have "\<not> bracketed l" using assms(5) exec_SECTION_bracketed [of l] by simp
  moreover have "l = k @ (ws @ d # ?sp) @ ?v" using r(1) by simp
  moreover have "bracketed (k @ (ws @ d # ?sp) @ ?v) = bracketed (k @ [0x3D] @ ?v)"
  proof (rule bracketed_middle)
    have sp: "\<forall>c\<in>set ?sp. is_space c" using set_takeWhileD [of _ is_space v] by blast
    have br: "\<not> is_space 0x5B" "\<not> is_space 0x5D" "\<not> is_delimiter 0x5B" "\<not> is_delimiter 0x5D"
      by (simp_all add: is_space_def is_delimiter_def)
    show "0x5B \<notin> set (ws @ d # ?sp)" using r(2,3) sp br by auto
    show "0x5D \<notin> set (ws @ d # ?sp)" using r(2,3) sp br by auto
  qed simp_all
  ultimately have tok: "\<not> bracketed (k @ 0x3D # ?v)" by simp
  have T1: "T (T k) = T k" using assms(8) by (simp add: case_mapping_def)
  have T2: "T k \<noteq> []" using assms(8) r(4) by (simp add: case_mapping_def)
  have T3: "\<not> is_space (hd (T k))"
    using assms(8) r(4,5) assms(2) unfolding case_mapping_def by metis
  have T4: "hd (T k) \<noteq> 0x3B \<and> hd (T k) \<noteq> 0x23"
    using assms(8) r(4) first unfolding case_mapping_def by metis
  have T5: "\<not> is_space (last (T k))"
    using assms(8) r(4,6) unfolding case_mapping_def by metis
  have T6: "\<forall>c\<in>set (T k). \<not> is_delimiter c \<and> \<not> is_line_boundary c"
    using assms(8) r(7) k_lb unfolding case_mapping_def by metis
  have T7: "\<not> bracketed (T k @ 0x3D # ?v)"
    using assms(8) tok unfolding case_mapping_def by metis
  have "wf_key_value T (T k) ?v \<or> T k = proto_name"
    using T1 T2 T3 T4 T5 T6 T7 v_lb v_hd by (simp add: wf_key_value_def)
  then show ?thesis using r(8,9) by simp
qed

lemma wf_name_header:
  assumes "\<forall>c\<in>set l. \<not> is_line_boundary c" and "exec SECTION l = Some res"
    and "case_mapping T"
  shows "wf_name T (T (group 1 res)) \<or> T (group 1 res) = proto_name"
proof -
  let ?h = "group 1 res"
  note h = header_name [OF assms(2)]
  have lb: "\<forall>c\<in>set ?h. \<not> is_line_boundary c" using h(3) assms(1) by blast
  have "T (T ?h) = T ?h" using assms(3) by (simp add: case_mapping_def)
  moreover have "T ?h \<noteq> []" using assms(3) h(1) by (simp add: case_mapping_def)
  moreover have "0x5D \<notin> set (T ?h)"
    using assms(3) h(2) unfolding case_mapping_def by metis
  moreover have "\<forall>c\<in>set (T ?h). \<not> is_line_boundary c"
    using assms(3) lb unfolding case_mapping_def by metis
  ultimately show ?thesis by (simp add: wf_name_def)
qed

lemma parse_line_wf:
  assumes "wf_store (transformKey rt tr) (p_sections (parser st))" and "clean_line l"
    and "p_transform (parser st) = tr" and "case_mapping (transformKey rt tr)"
    and "parse_line rt st n l = Inr st'"
  shows "wf_store (transformKey rt tr) (p_sections (parser st')) \<and> p_transform (parser st') = tr"
proof (cases "l = [] \<or> exec COMMENT l \<noteq> None")
  case True
  with assms show ?thesis by (auto simp: parse_line_def)
next
  case False
  then have l: "l \<noteq> []" "exec COMMENT l = None" "\<not> is_space (hd l)"
      "\<forall>c\<in>set l. \<not> is_line_boundary c"
    using assms(2) by (auto simp: clean_line_def)
  show ?thesis
  proof (cases "exec SECTION l")
    case (Some res)
    then have st': "st' = new_section st (transformKey rt tr (group 1 res))"
      using assms(3,5) False by (simp add: parse_line_def)
    from wf_name_header [OF l(4) Some assms(4)] assms(1,3) show ?thesis
      unfolding st' by (auto simp: new_section_def wf_store_new_section)
  next
    case None
    show ?thesis
    proof (cases "curSec st = NoSection")
      case True
      with assms(5) False None show ?thesis by (simp add: parse_line_def)
    next
      case False
      note cur = False
      show ?thesis
      proof (cases "\<exists>res. exec KEY l = Some res \<and> group 1 res \<noteq> [] \<and> take 1 l \<noteq> js ''=''")
        case True
        then obtain res where res: "exec KEY l = Some res" "group 1 res \<noteq> []"
            "take 1 l \<noteq> js ''=''"
          by blast
        have st': "st' = curSec_put st (transformKey rt tr (group 1 res)) (group 2 res)"
          using assms(3,5) l None cur res by (simp add: parse_line_def)
        have kv: "wf_key_value (transformKey rt tr) (transformKey rt tr (group 1 res)) (group 2 res)
                  \<or> transformKey rt tr (group 1 res) = proto_name"
          using wf_key_value_line [OF l(1,3,4,2) None res(1,2) assms(4)] .
        show ?thesis
          unfolding st' using assms(1,3) wf_store_map_entry [OF assms(1) kv]
          by (auto simp: curSec_put_def split: current_section.splits)
      next
        case False
        then have "parse_line rt st n l = invalid st n l"
          using l None cur by (auto simp: parse_line_def split: option.splits)
        with assms show ?thesis
          by (auto simp: invalid_def split: if_splits)
      qed
    qed
  qed
qed

lemma forEach_wf:
  assumes "wf_store (transformKey rt tr) (p_sections (parser st))" and "\<forall>l\<in>set ls. clean_line l"
    and "p_transform (parser st) = tr" and "case_mapping (transformKey rt tr)"
  shows "wf_store (transformKey rt tr) (p_sections (parser (fst (forEach rt st k ls))))"
  using assms(1,2,3)
proof (induction ls arbitrary: st k)
  case Nil
  then show ?case by simp
next
  case (Cons l ls)
  show ?case
  proof (cases "parse_line rt st k l")
    case (Inl e)
    with Cons.prems show ?thesis by simp
  next
    case (Inr st1)
    from parse_line_wf [OF Cons.prems(1) _ Cons.prems(3) assms(4) Inr] Cons.prems(2)
    have "wf_store (transformKey rt tr) (p_sections (parser st1))" "p_transform (parser st1) = tr"
      by auto
    with Cons.IH [of st1 "Suc k"] Cons.prems(2) Inr show ?thesis by simp
  qed
qed

lemma read_wf:
  assumes "p_sections cp = []" and "case_mapping (transformKey rt (p_transform cp))"
  shows "wf_store (transformKey rt (p_transform cp)) (p_sections (parser (fst (read rt cp f doc))))"
proof -
  have "clean_line (strip_leading l)" if "l \<in> set (split_lines doc)" for l
  proof -
    have "\<forall>c\<in>set (dropWhile is_space l). \<not> is_line_boundary c"
      using split_lines_clean [OF that] set_dropWhileD [of _ is_space l] by blast
    then show ?thesis
      using hd_dropWhile [of is_space l] by (auto simp: clean_line_def strip_leading_eq)
  qed
  then have "\<forall>l\<in>set (map strip_leading (split_lines doc)). clean_line l" by auto
  then show ?thesis
    unfolding read_def parseLines_def using assms
    by (intro forEach_wf) (simp_all add: wf_store_def)
qed

lemma case_mapping_none: "case_mapping (transformKey rt (js ''none''))"
proof -
  have "transformKey rt (js ''none'') = (\<lambda>s. s)"
    by (rule ext) (simp add: transformKey_none)
  then show ?thesis by (simp add: case_mapping_def)
qed

subsection \<open>The text of the serializer\<close>

lemma unlines_append: "unlines (a @ b) = unlines a @ unlines b"
  by (simp add: unlines_def)

lemma own_keys_set: "set (own_keys obj) = fst ` set obj"
  by (auto simp: own_keys_def)

lemma own_keys_distinct: "distinct (map fst obj) \<Longrightarrow> distinct (own_keys obj)"
  by (auto simp: own_keys_def)

lemma keys_loop_eq:
  assumes "\<not> own sec hasOwnProperty_name" and "set ks \<subseteq> fst ` set sec"
  shows "keys_loop sec ks out =
     Inr (out @ unlines (map (\<lambda>k. key_line (k, case map_of sec k of Some v \<Rightarrow> v | None \<Rightarrow> [])) ks))"
  using assms(2)
proof (induction ks arbitrary: out)
  case Nil
  then show ?case by (simp add: unlines_def)
next
  case (Cons k ks)
  then show ?case
    using assms(1)
    by (simp add: section_hasOwnProperty_def own_def unlines_def key_line_def js_def)
qed

lemma keys_loop_section:
  "\<not> own sec hasOwnProperty_name \<Longrightarrow>
   keys_loop sec (own_keys sec) out = Inr (out @ unlines (map key_line (entries sec [])))"
  using keys_loop_eq [of sec "own_keys sec" out]
  by (simp add: own_keys_set entries_def comp_def)

lemma sections_loop_eq:
  assumes "\<not> hasOwnProperty_hidden cp"
    and "\<forall>n\<in>set ss. own (p_sections cp) n \<longrightarrow> \<not> own (section_of cp n) hasOwnProperty_name"
  shows "sections_loop cp ss out =
     Inr (out @ unlines (concat (map (\<lambda>n. section_lines (n, section_of cp n))
                                   (filter (own (p_sections cp)) ss))))"
  using assms(2)
proof (induction ss arbitrary: out)
  case Nil
  then show ?case by (simp add: unlines_def)
next
  case (Cons n ss)
  show ?case
  proof (cases "own (p_sections cp) n")
    case False
    with Cons assms(1) show ?thesis
      by (simp add: sections_hasOwnProperty_eq)
  next
    case True
    then have "\<not> own (section_of cp n) hasOwnProperty_name" using Cons.prems by simp
    from keys_loop_section [OF this]
    have "keys_loop (section_of cp n) (own_keys (section_of cp n)) (out @ js ''['' @ n @ js '']'' @ [0x0A]) =
            Inr ((out @ js ''['' @ n @ js '']'' @ [0x0A])
                 @ unlines (map key_line (entries (section_of cp n) [])))"
      by simp
    moreover have "sections_loop cp ss (((out @ js ''['' @ n @ js '']'' @ [0x0A])
                 @ unlines (map key_line (entries (section_of cp n) []))) @ [0x0A]) =
        Inr ((((out @ js ''['' @ n @ js '']'' @ [0x0A])
                 @ unlines (map key_line (entries (section_of cp n) []))) @ [0x0A])
             @ unlines (concat (map (\<lambda>n. section_lines (n, section_of cp n))
                                   (filter (own (p_sections cp)) ss))))"
      using Cons.IH Cons.prems by simp
    ultimately show ?thesis
      using True assms(1)
      by (simp add: sections_hasOwnProperty_eq section_lines_def unlines_def js_def)
  qed
qed

lemma getSectionsAsString_eq:
  assumes "\<not> hasOwnProperty_hidden cp"
    and "\<forall>n\<in>fst ` set (p_sections cp). \<not> own (section_of cp n) hasOwnProperty_name"
  shows "getSectionsAsString cp =
     Inr (unlines (concat (map (\<lambda>n. section_lines (n, section_of cp n)) (own_keys (p_sections cp)))))"
proof -
  have own: "filter (own (p_sections cp)) (for_in_sections cp) = own_keys (p_sections cp)"
  proof -
    have "filter (own (p_sections cp)) (own_keys (p_sections cp)) = own_keys (p_sections cp)"
      by (simp add: own_keys_set own_def)
    then show ?thesis
      by (simp add: for_in_sections_def split: option.splits)
  qed
  have "\<forall>n\<in>set (for_in_sections cp). own (p_sections cp) n \<longrightarrow>
          \<not> own (section_of cp n) hasOwnProperty_name"
    using assms(2) by (auto simp: own_def)
  from sections_loop_eq [OF assms(1) this, of "[]"] own show ?thesis
    by (simp add: getSectionsAsString_def)
qed

subsection \<open>Parsing the serialized text\<close>

lemma split_unlines:
  "\<forall>l\<in>set ls. \<forall>c\<in>set l. \<not> is_line_boundary c \<Longrightarrow> split_lines (unlines ls) = ls @ [[]]"
proof (induction ls)
  case Nil
  then show ?case by (simp add: unlines_def)
next
  case (Cons l ls)
  then have "\<forall>c\<in>set l. \<not> is_line_boundary c" by simp
  from split_lines_newline [OF this, of "unlines ls"] Cons show ?case
    by (simp add: unlines_def)
qed

lemma strip_leading_clean: "l = [] \<or> \<not> is_space (hd l) \<Longrightarrow> strip_leading l = l"
  by (cases l) (auto simp: strip_leading_eq)

lemma header_step:
  assumes "wf_name (transformKey rt tr) n" and "p_transform (parser st) = tr"
  shows "parse_line rt st i (0x5B # n @ [0x5D]) = Inr (new_section st n)"
proof -
  have "exec COMMENT (0x5B # n @ [0x5D]) = None"
    by (intro exec_COMMENT_None) (simp_all add: is_space_def)
  moreover obtain res where "exec SECTION (0x5B # n @ [0x5D]) = Some res" "group 1 res = n"
    using exec_SECTION_header [of n] assms(1) by (auto simp: wf_name_def)
  ultimately show ?thesis
    using assms by (simp add: parse_line_def wf_name_def)
qed

lemma key_step:
  assumes "wf_key_value (transformKey rt tr) k v" and "curSec st \<noteq> NoSection" and "p_transform (parser st) = tr"
  shows "parse_line rt st i (key_line (k, v)) = Inr (curSec_put st k v)"
proof -
  let ?l = "k @ 0x3D # v"
  obtain x xs where k: "k = x # xs" using assms(1) by (cases k) (auto simp: wf_key_value_def)
  have x: "\<not> is_space x" "x \<noteq> 0x3B" "x \<noteq> 0x23" "\<not> is_delimiter x"
    using assms(1) k by (auto simp: wf_key_value_def)
  have comment: "exec COMMENT ?l = None"
    using x k by (intro exec_COMMENT_None) simp_all
  have header: "exec SECTION ?l = None"
    using assms(1) exec_SECTION_bracketed [of ?l] by (auto simp: wf_key_value_def)
  have chars: "\<forall>c\<in>set k. \<not> is_delimiter c \<and> \<not> is_line_terminator c"
    using assms(1) boundary_terminator by (auto simp: wf_key_value_def)
  have d: "is_delimiter 0x3D" by (simp add: is_delimiter_def)
  have "\<exists>res. exec KEY (k @ [] @ 0x3D # v) = Some res \<and> group 1 res = k
          \<and> group 2 res = takeWhile (\<lambda>c. \<not> is_line_terminator c) (dropWhile is_space v)"
    using assms(1) chars d by (intro exec_KEY) (auto simp: wf_key_value_def)
  moreover have "dropWhile is_space v = v"
    using assms(1) by (cases v) (auto simp: wf_key_value_def)
  moreover have "takeWhile (\<lambda>c. \<not> is_line_terminator c) v = v"
    using assms(1) boundary_terminator
    by (intro takeWhile_eq_all_conv [THEN iffD2]) (auto simp: wf_key_value_def)
  ultimately obtain res where res: "exec KEY ?l = Some res" "group 1 res = k" "group 2 res = v"
    by auto
  have first: "take 1 ?l \<noteq> js ''=''"
    using x(4) k by (auto simp: js_def is_delimiter_def)
  show ?thesis
    using comment header res first assms k
    by (simp add: parse_line_def key_line_def wf_key_value_def)
qed

lemma update_fresh: "k \<notin> fst ` set al \<Longrightarrow> AList.update k v al = al @ [(k, v)]"
  by (induction al) auto

lemma map_entry_last: "m \<notin> fst ` set A \<Longrightarrow> AList.map_entry m f (A @ [(m, x)]) = A @ [(m, f x)]"
  by (induction A) auto

lemma keys_parse:
  assumes "curSec st = Own m" and "p_transform (parser st) = tr"
    and "p_sections (parser st) = A @ [(m, acc)]" and "m \<notin> fst ` set A"
    and "distinct (map fst (acc @ kvs))" and "\<forall>kv\<in>set kvs. wf_key_value (transformKey rt tr) (fst kv) (snd kv)"
  shows "forEach rt st i (map key_line kvs @ tl_lines) =
           forEach rt (st\<lparr>parser := (parser st)\<lparr>p_sections := A @ [(m, acc @ kvs)]\<rparr>\<rparr>)
             (i + length kvs) tl_lines"
  using assms(1,2,3,5,6)
proof (induction kvs arbitrary: st acc i)
  case Nil
  have "st\<lparr>parser := (parser st)\<lparr>p_sections := A @ [(m, acc)]\<rparr>\<rparr> = st"
    using Nil(3) [symmetric] by simp
  then show ?case by simp
next
  case (Cons kv kvs)
  obtain k v where kv: "kv = (k, v)" by (cases kv)
  have wf: "wf_key_value (transformKey rt tr) k v" using Cons.prems(5) kv by simp
  have fresh: "k \<notin> fst ` set acc" using Cons.prems(4) kv by auto
  have "k \<noteq> proto_name" using wf by (simp add: wf_key_value_def)
  then have put: "put_key acc k v = acc @ [(k, v)]"
    using fresh by (simp add: put_key_def update_fresh)
  let ?st1 = "st\<lparr>parser := (parser st)\<lparr>p_sections := A @ [(m, acc @ [(k, v)])]\<rparr>\<rparr>"
  have "curSec_put st k v = ?st1"
    using Cons.prems(1,3) assms(4) put by (simp add: curSec_put_def map_entry_last)
  then have step: "parse_line rt st i (key_line kv) = Inr ?st1"
    using key_step [OF wf _ Cons.prems(2)] Cons.prems(1) kv by simp
  have "forEach rt ?st1 (Suc i) (map key_line kvs @ tl_lines) =
          forEach rt (?st1\<lparr>parser := (parser ?st1)\<lparr>p_sections := A @ [(m, (acc @ [(k, v)]) @ kvs)]\<rparr>\<rparr>)
            (Suc i + length kvs) tl_lines"
    using Cons.prems kv by (intro Cons.IH) auto
  with step show ?case by (simp add: kv)
qed

lemma section_parse:
  assumes "p_transform (parser st) = tr" and "p_sections (parser st) = A"
    and "n \<notin> fst ` set A" and "wf_name (transformKey rt tr) n"
    and "distinct (map fst kvs)" and "\<forall>kv\<in>set kvs. wf_key_value (transformKey rt tr) (fst kv) (snd kv)"
  shows "forEach rt st i ((0x5B # n @ [0x5D]) # map key_line kvs @ [] # tl_lines) =
           forEach rt (st\<lparr>parser := (parser st)\<lparr>p_sections := A @ [(n, kvs)]\<rparr>, curSec := Own n\<rparr>)
             (i + length kvs + 2) tl_lines"
proof -
  let ?st1 = "st\<lparr>parser := (parser st)\<lparr>p_sections := A @ [(n, [])]\<rparr>, curSec := Own n\<rparr>"
  have "n \<noteq> proto_name" using assms(4) by (simp add: wf_name_def)
  then have "new_section st n = ?st1"
    using assms(2,3) by (simp add: new_section_def update_fresh)
  then have step: "parse_line rt st i (0x5B # n @ [0x5D]) = Inr ?st1"
    using header_step [OF assms(4,1)] by simp
  have eq: "?st1\<lparr>parser := (parser ?st1)\<lparr>p_sections := A @ [(n, [] @ kvs)]\<rparr>\<rparr> =
            st\<lparr>parser := (parser st)\<lparr>p_sections := A @ [(n, kvs)]\<rparr>, curSec := Own n\<rparr>"
    by simp
  have "forEach rt ?st1 (Suc i) (map key_line kvs @ [] # tl_lines) =
          forEach rt (?st1\<lparr>parser := (parser ?st1)\<lparr>p_sections := A @ [(n, [] @ kvs)]\<rparr>\<rparr>)
            (Suc i + length kvs) ([] # tl_lines)"
    using assms by (intro keys_parse) auto
  then have keys: "forEach rt ?st1 (Suc i) (map key_line kvs @ [] # tl_lines) =
          forEach rt (st\<lparr>parser := (parser st)\<lparr>p_sections := A @ [(n, kvs)]\<rparr>, curSec := Own n\<rparr>)
            (Suc i + length kvs) ([] # tl_lines)"
    unfolding eq .
  have blank: "parse_line rt st2 j [] = Inr st2" for st2 j
    by (simp add: parse_line_def)
  have "forEach rt st i ((0x5B # n @ [0x5D]) # map key_line kvs @ [] # tl_lines) =
          forEach rt ?st1 (Suc i) (map key_line kvs @ [] # tl_lines)"
    using step by simp
  also have "\<dots> = forEach rt (st\<lparr>parser := (parser st)\<lparr>p_sections := A @ [(n, kvs)]\<rparr>, curSec := Own n\<rparr>)
            (Suc i + length kvs) ([] # tl_lines)"
    by (rule keys)
  also have "\<dots> = forEach rt (st\<lparr>parser := (parser st)\<lparr>p_sections := A @ [(n, kvs)]\<rparr>, curSec := Own n\<rparr>)
            (Suc (Suc i + length kvs)) tl_lines"
    by (simp only: forEach.simps blank sum.case)
  finally show ?thesis by simp
qed

lemma sections_parse:
  assumes "p_transform (parser st) = tr" and "p_sections (parser st) = A"
    and "distinct (map fst (A @ E))"
    and "\<forall>e\<in>set E. wf_name (transformKey rt tr) (fst e) \<and> distinct (map fst (snd e))
                      \<and> (\<forall>kv\<in>set (snd e). wf_key_value (transformKey rt tr) (fst kv) (snd kv))"
  shows "\<exists>st'. forEach rt st i
                 (concat (map (\<lambda>e. (0x5B # fst e @ [0x5D]) # map key_line (snd e) @ [[]]) E) @ [[]]) =
               (st', None)
             \<and> p_sections (parser st') = A @ E \<and> calls st' = calls st"
  using assms
proof (induction E arbitrary: st A i)
  case Nil
  then show ?case by (simp add: parse_line_def)
next
  case (Cons e E)
  obtain n kvs where e: "e = (n, kvs)" by (cases e)
  let ?st1 = "st\<lparr>parser := (parser st)\<lparr>p_sections := A @ [(n, kvs)]\<rparr>, curSec := Own n\<rparr>"
  let ?rest = "concat (map (\<lambda>e. (0x5B # fst e @ [0x5D]) # map key_line (snd e) @ [[]]) E) @ [[]]"
  have "forEach rt st i ((0x5B # n @ [0x5D]) # map key_line kvs @ [] # ?rest) =
          forEach rt ?st1 (i + length kvs + 2) ?rest"
    using Cons.prems e by (intro section_parse) auto
  moreover have "\<exists>st'. forEach rt ?st1 (i + length kvs + 2) ?rest = (st', None)
                   \<and> p_sections (parser st') = (A @ [(n, kvs)]) @ E \<and> calls st' = calls ?st1"
    using Cons.prems e by (intro Cons.IH) auto
  ultimately show ?case by (simp add: e)
qed

lemma entries_keys: "map fst (entries obj d) = own_keys obj"
  by (simp add: entries_def comp_def)

lemma map_of_entries: "map_of (entries obj d) = map_of obj"
proof
  fix k
  show "map_of (entries obj d) k = map_of obj k"
  proof (cases "k \<in> fst ` set obj")
    case True
    then obtain v where "map_of obj k = Some v"
      by (metis domD dom_map_of_conv_image_fst)
    with True show ?thesis
      by (simp add: entries_def map_of_map_restrict restrict_map_def own_keys_set)
  next
    case False
    then have "map_of obj k = None" by (simp add: map_of_eq_None_iff)
    with False show ?thesis
      by (simp add: entries_def map_of_map_restrict restrict_map_def own_keys_set)
  qed
qed

lemma wf_entries:
  assumes "wf_section T sec"
  shows "distinct (map fst (entries sec []))"
    and "\<forall>kv\<in>set (entries sec []). wf_key_value T (fst kv) (snd kv)"
proof -
  show "distinct (map fst (entries sec []))"
    using assms by (simp add: entries_keys own_keys_distinct wf_section_def)
  show "\<forall>kv\<in>set (entries sec []). wf_key_value T (fst kv) (snd kv)"
  proof
    fix kv assume "kv \<in> set (entries sec [])"
    then obtain k where k: "k \<in> fst ` set sec"
        "kv = (k, case map_of sec k of Some v \<Rightarrow> v | None \<Rightarrow> [])"
      by (auto simp: entries_def own_keys_set)
    then obtain v where v: "map_of sec k = Some v"
      by (metis domD dom_map_of_conv_image_fst)
    then have "(k, v) \<in> set sec" by (rule map_of_SomeD)
    with assms k(2) v show "wf_key_value T (fst kv) (snd kv)"
      by (auto simp: wf_section_def)
  qed
qed

lemma wf_store_section_of:
  assumes "wf_store T (p_sections cp)" and "n \<in> fst ` set (p_sections cp)"
  shows "wf_name T n" and "wf_section T (section_of cp n)" and "(n, section_of cp n) \<in> set (p_sections cp)"
proof -
  obtain sec where sec: "map_of (p_sections cp) n = Some sec"
    using assms(2) by (metis domD dom_map_of_conv_image_fst)
  then have mem: "(n, sec) \<in> set (p_sections cp)" by (rule map_of_SomeD)
  with assms(1) sec show "wf_name T n" "wf_section T (section_of cp n)"
    by (auto simp: wf_store_def section_of_def)
  from mem sec show "(n, section_of cp n) \<in> set (p_sections cp)"
    by (simp add: section_of_def)
qed

lemma header_line_clean:
  "wf_name T n \<Longrightarrow> \<forall>c\<in>set (0x5B # n @ [0x5D]). \<not> is_line_boundary c"
  by (auto simp: wf_name_def is_line_boundary_def)

lemma key_line_clean:
  "wf_key_value T (fst kv) (snd kv) \<Longrightarrow> \<forall>c\<in>set (key_line kv). \<not> is_line_boundary c"
  by (auto simp: wf_key_value_def key_line_def is_line_boundary_def)

lemma key_line_first:
  "wf_key_value T (fst kv) (snd kv) \<Longrightarrow> key_line kv \<noteq> [] \<and> \<not> is_space (hd (key_line kv))"
  by (cases "fst kv") (auto simp: wf_key_value_def key_line_def)

lemma in_concat_map: "l \<in> set (concat (map g xs)) \<Longrightarrow> \<exists>x\<in>set xs. l \<in> set (g x)"
  by auto

subsection \<open>The case mappings of the ASCII runtime\<close>

lemma bracketed_map:
  assumes "\<forall>c. g c = 0x5B \<longrightarrow> c = 0x5B" and "\<forall>c. g c = 0x5D \<longrightarrow> c = 0x5D" and "g 0x5D = 0x5D"
  shows "bracketed (map g k @ m) \<Longrightarrow> bracketed (k @ m)"
proof (induction k)
  case Nil
  then show ?case by simp
next
  case (Cons x xs)
  show ?case
  proof (cases "bracketed (map g xs @ m)")
    case True
    with Cons.IH show ?thesis by simp
  next
    case False
    with Cons.prems have x: "g x = 0x5B"
      and rest: "case map g xs @ m of [] \<Rightarrow> False | y # ys \<Rightarrow> y \<noteq> 0x5D \<and> 0x5D \<in> set ys"
      by auto
    from x assms(1) have "x = 0x5B" by blast
    moreover have "case xs @ m of [] \<Rightarrow> False | y # ys \<Rightarrow> y \<noteq> 0x5D \<and> 0x5D \<in> set ys"
    proof (cases xs)
      case Nil
      with rest show ?thesis by simp
    next
      case (Cons y ys)
      with rest have "g y \<noteq> 0x5D" "0x5D \<in> g ` set ys \<union> set m" by auto
      with assms(2,3) have "y \<noteq> 0x5D" "0x5D \<in> set ys \<union> set m" by auto
      with Cons show ?thesis by simp
    qed
    ultimately show ?thesis by simp
  qed
qed

lemma case_mapping_map:
  assumes idem: "\<forall>c. g (g c) = g c"
    and special: "\<forall>c. is_space (g c) \<or> g c = 0x3B \<or> g c = 0x23 \<or> g c = 0x5B \<or> g c = 0x5D
                     \<or> is_delimiter (g c) \<or> is_line_boundary (g c) \<longrightarrow> g c = c"
    and bracket: "g 0x5D = 0x5D"
  shows "case_mapping (map g)"
proof -
  have hd: "hd (map g s) = g (hd s)" if "s \<noteq> []" for s using that by (simp add: hd_map)
  have last: "last (map g s) = g (last s)" if "s \<noteq> []" for s using that by (simp add: last_map)
  have "\<forall>s. map g (map g s) = map g s" using idem by simp
  moreover have "\<forall>s. s \<noteq> [] \<longrightarrow> map g s \<noteq> []" by simp
  moreover have "\<forall>s. s \<noteq> [] \<and> is_space (hd (map g s)) \<longrightarrow> is_space (hd s)"
    using special hd by metis
  moreover have "\<forall>s. s \<noteq> [] \<and> (hd (map g s) = 0x3B \<or> hd (map g s) = 0x23) \<longrightarrow> hd (map g s) = hd s"
    using special hd by metis
  moreover have "\<forall>s. s \<noteq> [] \<and> is_space (last (map g s)) \<longrightarrow> is_space (last s)"
    using special last by metis
  moreover have "\<forall>s c. c \<in> set (map g s) \<and> (c = 0x5D \<or> is_delimiter c \<or> is_line_boundary c) \<longrightarrow> c \<in> set s"
    using special by auto
  moreover have "\<forall>k m. bracketed (map g k @ m) \<longrightarrow> bracketed (k @ m)"
    using bracketed_map [of g] special bracket by metis
  ultimately show ?thesis unfolding case_mapping_def by blast
qed

lemma upper_char_range:
  fixes c :: jschar
  assumes "0x61 \<le> c" and "c \<le> 0x7A"
  shows "0x41 \<le> c - 0x20 \<and> c - 0x20 \<le> 0x5A"
  using assms by unat_arith

lemma lower_char_range:
  fixes c :: jschar
  assumes "0x41 \<le> c" and "c \<le> 0x5A"
  shows "0x61 \<le> c + 0x20 \<and> c + 0x20 \<le> 0x7A"
proof -
  have "unat c \<le> 90" "65 \<le> unat c" using assms by (simp_all add: word_le_nat_alt)
  then have "unat (c + 0x20) = unat c + 32"
    by (simp add: unat_word_ariths)
  with \<open>unat c \<le> 90\<close> \<open>65 \<le> unat c\<close> show ?thesis by (simp add: word_le_nat_alt)
qed

lemma up_range: "ascii_upper_char c \<noteq> c \<Longrightarrow> 0x41 \<le> ascii_upper_char c \<and> ascii_upper_char c \<le> 0x5A"
  using upper_char_range [of c] by (auto simp: ascii_upper_char_def)

lemma low_range: "ascii_lower_char c \<noteq> c \<Longrightarrow> 0x61 \<le> ascii_lower_char c \<and> ascii_lower_char c \<le> 0x7A"
  using lower_char_range [of c] by (auto simp: ascii_lower_char_def)

lemma letter_plain:
  fixes x :: jschar
  assumes "0x41 \<le> x" and "x \<le> 0x7A"
  shows "\<not> is_space x" and "x \<noteq> 0x3B" and "x \<noteq> 0x23" and "\<not> is_delimiter x"
    and "\<not> is_line_boundary x"
proof -
  have "65 \<le> unat x" "unat x \<le> 122" using assms by (simp_all add: word_le_nat_alt)
  then show "\<not> is_space x" and "x \<noteq> 0x3B" and "x \<noteq> 0x23" and "\<not> is_delimiter x"
    and "\<not> is_line_boundary x"
    by (auto simp: is_space_def is_delimiter_def is_line_boundary_def word_le_nat_alt)
qed

lemma case_mapping_up: "case_mapping (map ascii_upper_char)"
proof (rule case_mapping_map)
  have same: "ascii_upper_char c = c" if "0x41 \<le> c" "c \<le> 0x5A" for c
    using that by (auto simp: ascii_upper_char_def word_le_nat_alt)
  show "\<forall>c. ascii_upper_char (ascii_upper_char c) = ascii_upper_char c"
    using up_range same by metis
  have plain: "\<not> is_space (ascii_upper_char c) \<and> ascii_upper_char c \<noteq> 0x3B \<and> ascii_upper_char c \<noteq> 0x23 \<and> ascii_upper_char c \<noteq> 0x5B \<and> ascii_upper_char c \<noteq> 0x5D
                \<and> \<not> is_delimiter (ascii_upper_char c) \<and> \<not> is_line_boundary (ascii_upper_char c)" if "ascii_upper_char c \<noteq> c" for c
  proof -
    from up_range [OF that] have r: "0x41 \<le> ascii_upper_char c" "ascii_upper_char c \<le> 0x5A" by simp_all
    then have "ascii_upper_char c \<le> 0x7A" by (simp add: word_le_nat_alt)
    from letter_plain [OF r(1) this] r show ?thesis by auto
  qed
  then show "\<forall>c. is_space (ascii_upper_char c) \<or> ascii_upper_char c = 0x3B \<or> ascii_upper_char c = 0x23 \<or> ascii_upper_char c = 0x5B \<or> ascii_upper_char c = 0x5D
                     \<or> is_delimiter (ascii_upper_char c) \<or> is_line_boundary (ascii_upper_char c) \<longrightarrow> ascii_upper_char c = c"
    by blast
  show "ascii_upper_char 0x5D = 0x5D" by (simp add: ascii_upper_char_def)
qed

lemma case_mapping_low: "case_mapping (map ascii_lower_char)"
proof (rule case_mapping_map)
  have same: "ascii_lower_char c = c" if "0x61 \<le> c" "c \<le> 0x7A" for c
    using that by (auto simp: ascii_lower_char_def word_le_nat_alt)
  show "\<forall>c. ascii_lower_char (ascii_lower_char c) = ascii_lower_char c"
    using low_range same by metis
  have plain: "\<not> is_space (ascii_lower_char c) \<and> ascii_lower_char c \<noteq> 0x3B \<and> ascii_lower_char c \<noteq> 0x23 \<and> ascii_lower_char c \<noteq> 0x5B \<and> ascii_lower_char c \<noteq> 0x5D
                \<and> \<not> is_delimiter (ascii_lower_char c) \<and> \<not> is_line_boundary (ascii_lower_char c)" if "ascii_lower_char c \<noteq> c" for c
  proof -
    from low_range [OF that] have r: "0x61 \<le> ascii_lower_char c" "ascii_lower_char c \<le> 0x7A" by simp_all
    then have "0x41 \<le> ascii_lower_char c" by (simp add: word_le_nat_alt)
    from letter_plain [OF this r(2)] r show ?thesis by auto
  qed
  then show "\<forall>c. is_space (ascii_lower_char c) \<or> ascii_lower_char c = 0x3B \<or> ascii_lower_char c = 0x23 \<or> ascii_lower_char c = 0x5B \<or> ascii_lower_char c = 0x5D
                     \<or> is_delimiter (ascii_lower_char c) \<or> is_line_boundary (ascii_lower_char c) \<longrightarrow> ascii_lower_char c = c"
    by blast
  show "ascii_lower_char 0x5D = 0x5D" by (simp add: ascii_lower_char_def)
qed

lemma case_mapping_ascii: "case_mapping (transformKey ascii_runtime tr)"
proof -
  have "transformKey ascii_runtime tr = map ascii_upper_char \<or> transformKey ascii_runtime tr = map ascii_lower_char
        \<or> transformKey ascii_runtime tr = (\<lambda>s. s)"
    by (auto simp: transformKey_def ascii_runtime_def ascii_upper_def ascii_lower_def ascii_upper_char_def ascii_lower_char_def
          fun_eq_iff)
  moreover have "case_mapping (\<lambda>s. s)" by (simp add: case_mapping_def)
  ultimately show ?thesis using case_mapping_up case_mapping_low by metis
qed

subsection \<open>The round trip\<close>

text \<open>
  A key named \<open>hasOwnProperty\<close> is parsed and stored like any other, and
  \<open>getSectionsAsString\<close> then raises \<open>TypeError\<close>: for that section the guard
  \<open>keys.hasOwnProperty(key)\<close> of the serializer calls a string. The same holds for a
  section of that name and the guard \<open>this._sections.hasOwnProperty(section)\<close>.
\<close>

lemma serialize_hasOwnProperty_key_raises:
  "read rt default_parser f (js ''[s]'' @ [0x0A] @ js ''hasOwnProperty=1'') =
     (\<lparr>parser = default_parser\<lparr>p_file := Some f,
                     p_sections := [(js ''s'', [(js ''hasOwnProperty'', js ''1'')])]\<rparr>,
        curSec = Own (js ''s''), calls = []\<rparr>, None)
   \<and> getSectionsAsString (parser (fst (read rt default_parser f
        (js ''[s]'' @ [0x0A] @ js ''hasOwnProperty=1'')))) = Inl TypeError"
  by (simp add: regex_defs parse_defs getSectionsAsString_def for_in_sections_def own_keys_def
        array_index_def store_defs)

text \<open>
  C5. Let a new parser, whose transform is \<open>none\<close> or a case mapping of the runtime as
  described by \<open>case_mapping\<close>, read a document without error, and let the store hold no
  section and no key named \<open>hasOwnProperty\<close>. Then \<open>getSectionsAsString\<close> returns the
  text \<open>serialized\<close>: the sections in the order of \<open>for...in\<close> (the names that are array
  indices first, in ascending numeric order, then the other names in insertion order),
  each as its header line, its \<open>key=value\<close> lines in that same order of the keys, and an
  empty line. Reading that text with a new parser of the same options succeeds and
  gives a store with the same sections, keys and raw values.
\<close>

theorem round_trip:
  assumes fresh: "p_sections cp = []"
    and cm: "case_mapping (transformKey rt (p_transform cp))"
    and parsed: "read rt cp f doc = (st, None)"
    and meth: "\<not> hasOwnProperty_hidden (parser st)"
    and keys: "\<forall>e\<in>set (p_sections (parser st)). \<not> own (snd e) hasOwnProperty_name"
  shows "getSectionsAsString (parser st) = Inr (serialized (parser st))
     \<and> (\<exists>st'. read rt cp f' (serialized (parser st)) = (st', None)
            \<and> store_content (parser st') = store_content (parser st))"
proof -
  let ?T = "transformKey rt (p_transform cp)"
  let ?cp = "parser st"
  let ?S = "p_sections ?cp"
  let ?E = "map (\<lambda>n. (n, entries (section_of ?cp n) [])) (own_keys ?S)"
  let ?block = "\<lambda>e. (0x5B # fst e @ [0x5D]) # map key_line (snd e) @ [[]]"
  let ?lines = "concat (map ?block ?E)"
  have wf: "wf_store ?T ?S"
    using read_wf [OF fresh cm, of f doc] parsed by simp
  have sec_wf: "wf_name ?T n \<and> wf_section ?T (section_of ?cp n) \<and> (n, section_of ?cp n) \<in> set ?S"
    if "n \<in> fst ` set ?S" for n
    using wf_store_section_of [OF wf that] by simp
  have "\<forall>n\<in>fst ` set ?S. \<not> own (section_of ?cp n) hasOwnProperty_name"
  proof
    fix n assume "n \<in> fst ` set ?S"
    then have "(n, section_of ?cp n) \<in> set ?S" using sec_wf by blast
    with keys show "\<not> own (section_of ?cp n) hasOwnProperty_name" by force
  qed
  from getSectionsAsString_eq [OF meth this]
  have ser: "getSectionsAsString ?cp = Inr (serialized ?cp)"
    by (simp add: serialized_def)
  have lines: "serialized ?cp = unlines ?lines"
    by (simp add: serialized_def section_lines_def comp_def)
  have E_wf: "\<forall>e\<in>set ?E. wf_name ?T (fst e) \<and> distinct (map fst (snd e))
                \<and> (\<forall>kv\<in>set (snd e). wf_key_value ?T (fst kv) (snd kv))"
  proof
    fix e assume "e \<in> set ?E"
    then obtain n where n: "n \<in> fst ` set ?S" "e = (n, entries (section_of ?cp n) [])"
      by (auto simp: own_keys_set)
    from sec_wf [OF n(1)] have "wf_name ?T n" "wf_section ?T (section_of ?cp n)" by simp_all
    with wf_entries [of ?T "section_of ?cp n"] n(2)
    show "wf_name ?T (fst e) \<and> distinct (map fst (snd e))
            \<and> (\<forall>kv\<in>set (snd e). wf_key_value ?T (fst kv) (snd kv))"
      by simp
  qed
  have E_distinct: "distinct (map fst ([] @ ?E))"
    using wf by (simp add: comp_def own_keys_distinct wf_store_def)
  have clean: "\<forall>l\<in>set ?lines. (\<forall>c\<in>set l. \<not> is_line_boundary c) \<and> (l = [] \<or> \<not> is_space (hd l))"
  proof
    fix l assume "l \<in> set ?lines"
    from in_concat_map [OF this] obtain e where e: "e \<in> set ?E" "l \<in> set (?block e)"
      by blast
    from E_wf e(1) have we: "wf_name ?T (fst e)" "\<forall>kv\<in>set (snd e). wf_key_value ?T (fst kv) (snd kv)"
      by blast+
    from e(2) have "l = 0x5B # fst e @ [0x5D] \<or> (\<exists>kv\<in>set (snd e). l = key_line kv) \<or> l = []"
      by auto
    then show "(\<forall>c\<in>set l. \<not> is_line_boundary c) \<and> (l = [] \<or> \<not> is_space (hd l))"
    proof (elim disjE bexE)
      assume "l = 0x5B # fst e @ [0x5D]"
      with header_line_clean [OF we(1)] show ?thesis by (simp add: is_space_def)
    next
      fix kv assume "kv \<in> set (snd e)" "l = key_line kv"
      with we(2) key_line_clean [of ?T kv] key_line_first [of ?T kv] show ?thesis by simp
    next
      assume "l = []"
      then show ?thesis by simp
    qed
  qed
  then have split: "split_lines (unlines ?lines) = ?lines @ [[]]"
    by (intro split_unlines) blast
  have strip: "map strip_leading (?lines @ [[]]) = ?lines @ [[]]"
  proof -
    have "\<forall>l\<in>set (?lines @ [[]]). strip_leading l = l"
      using clean strip_leading_clean by auto
    then show ?thesis by (simp only: map_idI)
  qed
  let ?st0 = "\<lparr>parser = cp\<lparr>p_file := Some f'\<rparr>, curSec = NoSection, calls = []\<rparr>"
  have "\<exists>st'. forEach rt ?st0 0 (?lines @ [[]]) = (st', None)
          \<and> p_sections (parser st') = [] @ ?E \<and> calls st' = calls ?st0"
    by (rule sections_parse [OF _ _ E_distinct E_wf]) (simp_all add: fresh)
  then obtain st' where st': "forEach rt ?st0 0 (?lines @ [[]]) = (st', None)"
      "p_sections (parser st') = ?E"
    by auto
  have again: "read rt cp f' (serialized ?cp) = (st', None)"
    unfolding lines read_def parseLines_def split strip using st'(1) .
  have "store_content (parser st') n = store_content ?cp n" for n
  proof (cases "n \<in> fst ` set ?S")
    case True
    then obtain sec where sec: "map_of ?S n = Some sec"
      by (metis domD dom_map_of_conv_image_fst)
    then have "section_of ?cp n = sec" by (simp add: section_of_def)
    moreover have "map_of ?E n = Some (entries (section_of ?cp n) [])"
      using True by (simp add: map_of_map_restrict restrict_map_def own_keys_set)
    ultimately show ?thesis
      using sec st'(2) by (simp add: store_content_def map_of_entries)
  next
    case False
    then have "map_of ?S n = None" by (simp add: map_of_eq_None_iff)
    moreover have "map_of ?E n = None"
      using False by (simp add: map_of_map_restrict restrict_map_def own_keys_set)
    ultimately show ?thesis
      using st'(2) by (simp add: store_content_def)
  qed
  then have "store_content (parser st') = store_content ?cp" by blast
  with ser again show ?thesis by blast
qed

theorem round_trip_witness:
  "getSectionsAsString (parser (fst (read ascii_runtime (default_parser\<lparr>p_transform := js ''upper''\<rparr>)
       (FileName (js ''a.ini''))
       (js ''[b]'' @ [0x0A] @ js '' k : v '' @ [0x0A] @ js ''# x'' @ [0x0A] @ js ''[7]''))))
     = Inr (js ''[7]'' @ [0x0A, 0x0A] @ js ''[B]'' @ [0x0A] @ js ''K=v '' @ [0x0A, 0x0A])
   \<and> (\<exists>st'. read ascii_runtime (default_parser\<lparr>p_transform := js ''upper''\<rparr>)
                (FileName (js ''b.ini''))
                (js ''[7]'' @ [0x0A, 0x0A] @ js ''[B]'' @ [0x0A] @ js ''K=v '' @ [0x0A, 0x0A]) = (st', None)
          \<and> store_content (parser st') =
              store_content (parser (fst (read ascii_runtime (default_parser\<lparr>p_transform := js ''upper''\<rparr>)
                (FileName (js ''a.ini''))
                (js ''[b]'' @ [0x0A] @ js '' k : v '' @ [0x0A] @ js ''# x'' @ [0x0A] @ js ''[7]'')))))"
proof -
  let ?cp = "default_parser\<lparr>p_transform := js ''upper''\<rparr>"
  let ?doc = "js ''[b]'' @ [0x0A] @ js '' k : v '' @ [0x0A] @ js ''# x'' @ [0x0A] @ js ''[7]''"
  let ?st = "\<lparr>parser = ?cp\<lparr>p_file := Some (FileName (js ''a.ini'')),
                 p_sections := [(js ''B'', [(js ''K'', js ''v '')]), (js ''7'', [])]\<rparr>,
               curSec = Own (js ''7''), calls = []\<rparr>"
  have parsed: "read ascii_runtime ?cp (FileName (js ''a.ini'')) ?doc = (?st, None)"
    by (simp add: regex_defs parse_defs ascii_runtime_def ascii_upper_def)
  have fresh: "p_sections ?cp = []"
    by (simp add: default_parser_def ConfigParser_def)
  have cm: "case_mapping (transformKey ascii_runtime (p_transform ?cp))"
    by (rule case_mapping_ascii)
  have meth: "\<not> hasOwnProperty_hidden (parser ?st)"
    by (simp add: hasOwnProperty_hidden_def own_def hasOwnProperty_name_def js_def
          default_parser_def ConfigParser_def)
  have keys: "\<forall>e\<in>set (p_sections (parser ?st)). \<not> own (snd e) hasOwnProperty_name"
    by (simp add: own_def hasOwnProperty_name_def js_def)
  have ser: "serialized (parser ?st) =
               js ''[7]'' @ [0x0A, 0x0A] @ js ''[B]'' @ [0x0A] @ js ''K=v '' @ [0x0A, 0x0A]"
    by (simp add: serialized_def unlines_def section_lines_def key_line_def entries_def
          own_keys_def array_index_def digits_value_def digit_of_def section_of_def js_def)
  from round_trip [OF fresh cm parsed meth keys, of "FileName (js ''b.ini'')"]
  show ?thesis unfolding parsed ser by simp
qed

text \<open>
  The sections are not written in insertion order: the document \<open>[10]\<close>, \<open>[2]\<close> stores
  \<open>10\<close> before \<open>2\<close>, and \<open>for...in\<close> visits \<open>2\<close> before \<open>10\<close>.
\<close>

theorem serialization_order_counterexample:
  "map fst (p_sections (parser (fst (read ascii_runtime default_parser (FileName (js ''a.ini''))
       (js ''[10]'' @ [0x0A] @ js ''[2]''))))) = [js ''10'', js ''2'']
   \<and> snd (read ascii_runtime default_parser (FileName (js ''a.ini''))
       (js ''[10]'' @ [0x0A] @ js ''[2]'')) = None
   \<and> getSectionsAsString (parser (fst (read ascii_runtime default_parser (FileName (js ''a.ini''))
       (js ''[10]'' @ [0x0A] @ js ''[2]''))))
     = Inr (js ''[2]'' @ [0x0A, 0x0A] @ js ''[10]'' @ [0x0A, 0x0A])
   \<and> getSectionsAsString (parser (fst (read ascii_runtime default_parser (FileName (js ''a.ini''))
       (js ''[10]'' @ [0x0A] @ js ''[2]''))))
     \<noteq> Inr (js ''[10]'' @ [0x0A, 0x0A] @ js ''[2]'' @ [0x0A, 0x0A])"
  by (simp add: regex_defs parse_defs getSectionsAsString_def for_in_sections_def own_keys_def
        array_index_def digits_value_def digit_of_def store_defs)

end
